theory Spec2Isabelle
  imports Main "HOL-Library.Word" "HOL-Library.Monad_Syntax"
begin

unbundle bit_operations_syntax

section \<open>Data model of main.c\<close>

text \<open>
  A pointer to a \<^verbatim>\<open>TrieNode\<close> is an address; address 0 is \<^verbatim>\<open>NULL\<close>.  The two
  26-element arrays of a node are lists of length 26.  The three \<^verbatim>\<open>int\<close> flags of the C
  struct only ever hold 0 or 1 (they are zeroed by \<^verbatim>\<open>calloc\<close>, set to 1, or copied from
  one another), so they are booleans here.
\<close>

type_synonym addr = nat
type_synonym uint32 = "32 word"

abbreviation ALPHABET_SIZE :: nat where
  "ALPHABET_SIZE \<equiv> 26"

record TrieNode =
  children :: "addr list"
  child_is_terminal :: "bool list"
  is_end_of_word :: bool
  visited :: bool

text \<open>
  The heap holds the node stored at every address and the next address \<^verbatim>\<open>calloc\<close> hands
  out.  Allocation never fails in the model (the C code exits with status 1 when it does).
\<close>

record heap =
  cells :: "addr \<Rightarrow> TrieNode"
  brk :: addr

definition zero_node :: TrieNode where
  "zero_node = \<lparr>children = replicate ALPHABET_SIZE 0,
                child_is_terminal = replicate ALPHABET_SIZE False,
                is_end_of_word = False, visited = False\<rparr>"

definition upd_node :: "addr \<Rightarrow> (TrieNode \<Rightarrow> TrieNode) \<Rightarrow> heap \<Rightarrow> heap" where
  "upd_node a f h = h\<lparr>cells := (cells h)(a := f (cells h a))\<rparr>"

definition child :: "heap \<Rightarrow> addr \<Rightarrow> nat \<Rightarrow> addr" where
  "child h node i = children (cells h node) ! i"

definition set_child :: "addr \<Rightarrow> nat \<Rightarrow> addr \<Rightarrow> heap \<Rightarrow> heap" where
  "set_child node i p h = upd_node node (\<lambda>nd. nd\<lparr>children := (children nd)[i := p]\<rparr>) h"

definition trie_create_node :: "heap \<Rightarrow> addr \<times> heap" where
  "trie_create_node h = (brk h, \<lparr>cells = (cells h)(brk h := zero_node), brk = Suc (brk h)\<rparr>)"

definition empty_heap :: heap where
  "empty_heap = \<lparr>cells = (\<lambda>_. zero_node), brk = 1\<rparr>"

subsection \<open>Trie construction\<close>

text \<open>
  \<^verbatim>\<open>index = word[i] - 'a'\<close>.  An index outside 0..25 leaves the 26-element arrays, which
  is undefined behaviour in C: the model returns \<open>None\<close> there.
\<close>

definition letter_index :: "char \<Rightarrow> int" where
  "letter_index c = int (of_char c) - 97"

fun trie_insert :: "addr \<Rightarrow> string \<Rightarrow> heap \<Rightarrow> heap option" where
  "trie_insert current [] h = Some (upd_node current (\<lambda>nd. nd\<lparr>is_end_of_word := True\<rparr>) h)"
| "trie_insert current (c # w) h =
     (let index = letter_index c in
      if index < 0 \<or> int ALPHABET_SIZE \<le> index then None
      else if child h current (nat index) = 0 then
        (let (p, h1) = trie_create_node h
         in trie_insert p w (set_child current (nat index) p h1))
      else trie_insert (child h current (nat index)) w h)"

text \<open>The loader: a fresh root, then one \<^verbatim>\<open>trie_insert\<close> per word, in input order.\<close>

fun trie_insert_all :: "addr \<Rightarrow> string list \<Rightarrow> heap \<Rightarrow> heap option" where
  "trie_insert_all root [] h = Some h"
| "trie_insert_all root (w # ws) h =
     (case trie_insert root w h of None \<Rightarrow> None | Some h1 \<Rightarrow> trie_insert_all root ws h1)"

definition trie_build :: "string list \<Rightarrow> (addr \<times> heap) option" where
  "trie_build ws =
     (let (root, h) = trie_create_node empty_heap
      in map_option (\<lambda>h1. (root, h1)) (trie_insert_all root ws h))"

subsection \<open>Moving terminal flags to the edges\<close>

text \<open>
  A recursive C function whose body is a loop over the 26 children is run as a machine
  with two kinds of frames: \<open>Call node\<close> enters the function, \<open>Loop node i\<close> is the loop
  at index \<open>i\<close>.  The run is a partial function: \<open>None\<close> means that the C run does not
  return.
\<close>

datatype frame = Call addr | Loop addr nat

partial_function (option) trie_move_eow_run :: "frame \<Rightarrow> heap \<Rightarrow> heap option" where
  "trie_move_eow_run fr h =
     (case fr of
        Call node \<Rightarrow> if node = 0 then Some h else trie_move_eow_run (Loop node 0) h
      | Loop node i \<Rightarrow>
          if i < ALPHABET_SIZE then
            (if child h node i \<noteq> 0 then
               Option.bind
                 (trie_move_eow_run (Call (child h node i))
                    (upd_node node (\<lambda>nd. nd\<lparr>child_is_terminal :=
                        (child_is_terminal nd)[i := is_end_of_word (cells h (child h node i))]\<rparr>) h))
                 (\<lambda>h1. trie_move_eow_run (Loop node (Suc i)) h1)
             else trie_move_eow_run (Loop node (Suc i)) h)
          else Some h)"

definition trie_move_eow_to_edges :: "addr \<Rightarrow> heap \<Rightarrow> heap option" where
  "trie_move_eow_to_edges node h = trie_move_eow_run (Call node) h"

subsection \<open>Compression\<close>

abbreviation HASH_TABLE_SIZE :: nat where
  "HASH_TABLE_SIZE \<equiv> 262147"

record HashEntry =
  canonical :: addr
  children_key :: "addr list"
  terminal_key :: "bool list"

text \<open>A bucket is the chain of its entries, head first.\<close>

type_synonym HashMap = "nat \<Rightarrow> HashEntry list"

definition hashmap_create :: HashMap where
  "hashmap_create = (\<lambda>_. [])"

fun hash_sig_loop :: "addr list \<Rightarrow> bool list \<Rightarrow> uint32 \<Rightarrow> uint32" where
  "hash_sig_loop (p # ps) (t # ts) hv =
     hash_sig_loop ps ts ((hv * 131 + word_of_nat (p div 16)) * 31 + of_bool t)"
| "hash_sig_loop _ _ hv = hv"

definition hash_node_sig :: "TrieNode \<Rightarrow> nat" where
  "hash_node_sig nd =
     unat (hash_sig_loop (children nd) (child_is_terminal nd) 0) mod HASH_TABLE_SIZE"

fun chain_find :: "HashEntry list \<Rightarrow> TrieNode \<Rightarrow> addr option" where
  "chain_find [] nd = None"
| "chain_find (e # es) nd =
     (if children_key e = children nd \<and> terminal_key e = child_is_terminal nd
      then Some (canonical e) else chain_find es nd)"

definition hashmap_find_or_insert :: "HashMap \<Rightarrow> addr \<Rightarrow> heap \<Rightarrow> addr \<times> HashMap" where
  "hashmap_find_or_insert m node h =
     (let nd = cells h node; hv = hash_node_sig nd in
      case chain_find (m hv) nd of
        Some c \<Rightarrow> (c, m)
      | None \<Rightarrow> (node, m(hv := \<lparr>canonical = node, children_key = children nd,
                                terminal_key = child_is_terminal nd\<rparr> # m hv)))"

text \<open>
  \<open>Call node\<close> is \<^verbatim>\<open>dawg_compress_node(node, map)\<close>; \<open>Loop node i\<close> is its loop, which
  is also the whole body of \<^verbatim>\<open>dawg_compress(root, map)\<close>.
\<close>

partial_function (option) dawg_compress_run ::
  "frame \<Rightarrow> heap \<Rightarrow> HashMap \<Rightarrow> (addr \<times> heap \<times> HashMap) option" where
  "dawg_compress_run fr h m =
     (case fr of
        Call node \<Rightarrow>
          if node = 0 then Some (0, h, m)
          else if visited (cells h node) then Some (node, h, m)
          else Option.bind
                 (dawg_compress_run (Loop node 0)
                    (upd_node node (\<lambda>nd. nd\<lparr>visited := True\<rparr>) h) m)
                 (\<lambda>(_, h1, m1).
                    case hashmap_find_or_insert m1 node h1 of (r, m2) \<Rightarrow> Some (r, h1, m2))
      | Loop node i \<Rightarrow>
          if i < ALPHABET_SIZE then
            (if child h node i \<noteq> 0 then
               Option.bind (dawg_compress_run (Call (child h node i)) h m)
                 (\<lambda>(r, h1, m1). dawg_compress_run (Loop node (Suc i)) (set_child node i r h1) m1)
             else dawg_compress_run (Loop node (Suc i)) h m)
          else Some (node, h, m))"

definition dawg_compress_node ::
  "addr \<Rightarrow> heap \<Rightarrow> HashMap \<Rightarrow> (addr \<times> heap \<times> HashMap) option" where
  "dawg_compress_node node h m = dawg_compress_run (Call node) h m"

definition dawg_compress :: "addr \<Rightarrow> heap \<Rightarrow> HashMap \<Rightarrow> (heap \<times> HashMap) option" where
  "dawg_compress root h m = map_option snd (dawg_compress_run (Loop root 0) h m)"

subsection \<open>Node statistics\<close>

text \<open>
  \<^verbatim>\<open>dawg_reset_visited\<close> and \<^verbatim>\<open>dawg_count_nodes\<close>, run with the same two kinds of
  frames; the counter of \<^verbatim>\<open>dawg_count_nodes\<close> is the \<^verbatim>\<open>count\<close> of the frame's loop.
\<close>

partial_function (option) dawg_reset_visited_run :: "frame \<Rightarrow> heap \<Rightarrow> heap option" where
  "dawg_reset_visited_run fr h =
     (case fr of
        Call node \<Rightarrow>
          if node = 0 \<or> \<not> visited (cells h node) then Some h
          else dawg_reset_visited_run (Loop node 0)
                 (upd_node node (\<lambda>nd. nd\<lparr>visited := False\<rparr>) h)
      | Loop node i \<Rightarrow>
          if i < ALPHABET_SIZE then
            Option.bind (dawg_reset_visited_run (Call (child h node i)) h)
              (\<lambda>h1. dawg_reset_visited_run (Loop node (Suc i)) h1)
          else Some h)"

partial_function (option) dawg_count_nodes_run ::
  "frame \<Rightarrow> int \<Rightarrow> heap \<Rightarrow> (int \<times> heap) option" where
  "dawg_count_nodes_run fr count h =
     (case fr of
        Call node \<Rightarrow>
          if node = 0 \<or> visited (cells h node) then Some (0, h)
          else dawg_count_nodes_run (Loop node 0) 1
                 (upd_node node (\<lambda>nd. nd\<lparr>visited := True\<rparr>) h)
      | Loop node i \<Rightarrow>
          if i < ALPHABET_SIZE then
            Option.bind (dawg_count_nodes_run (Call (child h node i)) 0 h)
              (\<lambda>(k, h1). dawg_count_nodes_run (Loop node (Suc i)) (count + k) h1)
          else Some (count, h))"

text \<open>
  The statistic \<^verbatim>\<open>main\<close> prints as ``DAWG nodes'': the root's flag is forced to 1, the
  flags are reset, and the nodes are counted, the root included.
\<close>

definition dawg_nodes :: "addr \<Rightarrow> heap \<Rightarrow> int option" where
  "dawg_nodes root h =
     Option.bind
       (dawg_reset_visited_run (Call root) (upd_node root (\<lambda>nd. nd\<lparr>visited := True\<rparr>) h))
       (\<lambda>h1. map_option fst (dawg_count_nodes_run (Call root) 0 h1))"

subsection \<open>Flattening\<close>

definition PACK_CHAR :: "int \<Rightarrow> uint32" where
  "PACK_CHAR c = word_of_int c AND 0x1F"

definition PACK_EOW :: "int \<Rightarrow> uint32" where
  "PACK_EOW eow = push_bit 5 (word_of_int eow AND 1)"

definition PACK_EON :: "int \<Rightarrow> uint32" where
  "PACK_EON eon = push_bit 6 (word_of_int eon AND 1)"

definition PACK_NEXT :: "int \<Rightarrow> uint32" where
  "PACK_NEXT ptr = push_bit 7 (word_of_int ptr AND 0x1FFFFFF)"

definition UNPACK_CHAR :: "uint32 \<Rightarrow> uint32" where
  "UNPACK_CHAR v = v AND 0x1F"

definition UNPACK_EOW :: "uint32 \<Rightarrow> uint32" where
  "UNPACK_EOW v = drop_bit 5 v AND 1"

definition UNPACK_EON :: "uint32 \<Rightarrow> uint32" where
  "UNPACK_EON v = drop_bit 6 v AND 1"

definition UNPACK_NEXT :: "uint32 \<Rightarrow> uint32" where
  "UNPACK_NEXT v = drop_bit 7 v AND 0x1FFFFFF"

text \<open>
  The array of a \<^verbatim>\<open>PackedDAWG\<close> is its contents at every index; \<^verbatim>\<open>calloc\<close> and the
  \<^verbatim>\<open>memset\<close> after \<^verbatim>\<open>realloc\<close> make all of it zero.
\<close>

record PackedDAWG =
  data :: "int \<Rightarrow> uint32"
  size :: int
  capacity :: int

definition packed_dawg_create :: "int \<Rightarrow> PackedDAWG" where
  "packed_dawg_create initial_capacity =
     \<lparr>data = (\<lambda>_. 0), size = 0, capacity = initial_capacity\<rparr>"

definition count_children :: "TrieNode \<Rightarrow> int" where
  "count_children nd = int (length (filter (\<lambda>p. p \<noteq> 0) (children nd)))"

abbreviation OFFSET_MAP_SIZE :: nat where
  "OFFSET_MAP_SIZE \<equiv> 262147"

type_synonym OffsetMap = "nat \<Rightarrow> (addr \<times> int) list"

definition offset_map_create :: OffsetMap where
  "offset_map_create = (\<lambda>_. [])"

definition hash_ptr :: "addr \<Rightarrow> nat" where
  "hash_ptr ptr = unat (word_of_nat (ptr div 16) :: uint32) mod OFFSET_MAP_SIZE"

fun chain_get :: "(addr \<times> int) list \<Rightarrow> addr \<Rightarrow> int" where
  "chain_get [] node = - 1"
| "chain_get (e # es) node = (if fst e = node then snd e else chain_get es node)"

definition offset_map_get :: "OffsetMap \<Rightarrow> addr \<Rightarrow> int" where
  "offset_map_get om node = chain_get (om (hash_ptr node)) node"

definition offset_map_put :: "OffsetMap \<Rightarrow> addr \<Rightarrow> int \<Rightarrow> OffsetMap" where
  "offset_map_put om node offset = om(hash_ptr node := (node, offset) # om (hash_ptr node))"

text \<open>
  Phase 1.  The state is the queue array up to \<^verbatim>\<open>q_back\<close>, the offset map and
  \<^verbatim>\<open>pd->size\<close>; \<^verbatim>\<open>q_front\<close> is the loop counter.  The growth of the queue array by
  \<^verbatim>\<open>realloc\<close> changes no value and is left out.
\<close>

type_synonym assign_state = "addr list \<times> OffsetMap \<times> int"

definition assign_child :: "heap \<Rightarrow> addr \<Rightarrow> nat \<Rightarrow> assign_state \<Rightarrow> assign_state" where
  "assign_child h node i st =
     (case st of (queue, om, sz) \<Rightarrow>
        if child h node i \<noteq> 0 then
          (let c = child h node i in
           if offset_map_get om c = - 1 then
             (let cc = count_children (cells h c) in
              if cc > 0 then (queue @ [c], offset_map_put om c sz, sz + cc)
              else (queue, offset_map_put om c 0, sz))
           else st)
        else st)"

partial_function (option) flatten_assign ::
  "heap \<Rightarrow> nat \<Rightarrow> assign_state \<Rightarrow> assign_state option" where
  "flatten_assign h q_front st =
     (if q_front < length (fst st)
      then flatten_assign h (Suc q_front)
             (fold (assign_child h (fst st ! q_front)) [0..<ALPHABET_SIZE] st)
      else Some st)"

text \<open>
  Phase 2.  The state of the inner loop is \<^verbatim>\<open>slot\<close>, the array, the \<^verbatim>\<open>visited\<close> map and
  the queue.
\<close>

type_synonym emit_state = "int \<times> (int \<Rightarrow> uint32) \<times> OffsetMap \<times> addr list"

definition pack_entry :: "nat \<Rightarrow> bool \<Rightarrow> bool \<Rightarrow> int \<Rightarrow> uint32" where
  "pack_entry i eow is_last child_offset =
     0 OR PACK_CHAR (int i + 1) OR PACK_EOW (of_bool eow) OR PACK_EON (of_bool is_last)
       OR PACK_NEXT child_offset"

definition emit_child :: "heap \<Rightarrow> OffsetMap \<Rightarrow> addr \<Rightarrow> nat \<Rightarrow> emit_state \<Rightarrow> emit_state" where
  "emit_child h om node i st =
     (case st of (slot, dat, vis, queue) \<Rightarrow>
        if child h node i \<noteq> 0 then
          (let c = child h node i;
               base_offset = offset_map_get om node;
               num_children = count_children (cells h node);
               child_offset = offset_map_get om c;
               is_last = (slot = num_children - 1);
               entry = pack_entry i (child_is_terminal (cells h node) ! i) is_last child_offset;
               dat1 = dat(base_offset + slot := entry)
           in if offset_map_get vis c = - 1 \<and> count_children (cells h c) > 0
              then (slot + 1, dat1, offset_map_put vis c 1, queue @ [c])
              else (slot + 1, dat1, vis, queue))
        else st)"

type_synonym fill_state = "(int \<Rightarrow> uint32) \<times> OffsetMap \<times> addr list"

partial_function (option) flatten_fill ::
  "heap \<Rightarrow> OffsetMap \<Rightarrow> nat \<Rightarrow> fill_state \<Rightarrow> fill_state option" where
  "flatten_fill h om q_front st =
     (case st of (dat, vis, queue) \<Rightarrow>
        if q_front < length queue
        then flatten_fill h om (Suc q_front)
               (snd (fold (emit_child h om (queue ! q_front)) [0..<ALPHABET_SIZE]
                       (0, dat, vis, queue)))
        else Some st)"

definition flatten_offsets :: "addr \<Rightarrow> heap \<Rightarrow> assign_state option" where
  "flatten_offsets root h =
     flatten_assign h 0
       ([root], offset_map_put offset_map_create root 0, count_children (cells h root))"

definition dawg_flatten :: "addr \<Rightarrow> heap \<Rightarrow> PackedDAWG option" where
  "dawg_flatten root h =
     Option.bind (flatten_offsets root h) (\<lambda>(queue1, om, sz).
       let pd = (packed_dawg_create 500000)\<lparr>size := sz\<rparr>;
           pd1 = (if size pd > capacity pd
                  then pd\<lparr>capacity := size pd * 2, data := (\<lambda>_. 0)\<rparr> else pd)
       in map_option (\<lambda>(dat, vis, queue). pd1\<lparr>data := dat\<rparr>)
            (flatten_fill h om 0
               (data pd1, offset_map_put offset_map_create root 1, [root])))"

text \<open>
  \<^verbatim>\<open>fwrite(pd->data, sizeof(uint32_t), pd->size, fp)\<close>: the file is the first
  \<^verbatim>\<open>pd->size\<close> entries, four bytes each.
\<close>

definition packed_file :: "PackedDAWG \<Rightarrow> uint32 list" where
  "packed_file pd = map (\<lambda>k. data pd (int k)) [0..<nat (size pd)]"

definition file_size :: "uint32 list \<Rightarrow> nat" where
  "file_size entries = 4 * length entries"

subsection \<open>The whole build\<close>

definition build_dawg :: "string list \<Rightarrow> (addr \<times> heap \<times> HashMap) option" where
  "build_dawg ws =
     Option.bind (trie_build ws) (\<lambda>(root, h0).
     Option.bind (trie_move_eow_to_edges root h0) (\<lambda>h1.
     map_option (\<lambda>(h2, m). (root, h2, m)) (dawg_compress root h1 hashmap_create)))"

definition build_packed :: "string list \<Rightarrow> PackedDAWG option" where
  "build_packed ws = Option.bind (build_dawg ws) (\<lambda>(root, h, m). dawg_flatten root h)"

definition build_binary :: "string list \<Rightarrow> uint32 list option" where
  "build_binary ws = map_option packed_file (build_packed ws)"

subsection \<open>Walking the packed image\<close>

text \<open>
  The walker reads \<^verbatim>\<open>data[index]\<close> and writes \<^verbatim>\<open>buffer[depth]\<close> without a bound
  check.  The image read back from the file has as many entries as the file holds and the
  buffer of \<^verbatim>\<open>packed_dawg_verify\<close> has 256 characters: an access outside either is
  undefined behaviour in C and an error value here.
\<close>

datatype error = DataOutOfBounds | BufferOverflow

record walk_state =
  buffer :: string
  word_count :: int
  printed :: "string list"

definition c_string :: "string \<Rightarrow> string" where
  "c_string buf = takeWhile (\<lambda>c. c \<noteq> CHR 0x00) buf"

datatype wframe = WCall nat nat | WLoop nat nat

definition walk_entry ::
  "bool \<Rightarrow> uint32 \<Rightarrow> nat \<Rightarrow> walk_state \<Rightarrow> error + walk_state" where
  "walk_entry print_words v depth s =
     (if length (buffer s) \<le> depth then Inl BufferOverflow
      else
        (let s1 = s\<lparr>buffer := (buffer s)[depth := char_of (97 + unat (UNPACK_CHAR v) - 1)]\<rparr>
         in if UNPACK_EOW v \<noteq> 0 then
              (let s2 = s1\<lparr>word_count := word_count s1 + 1\<rparr>
               in if print_words then
                    (if length (buffer s2) \<le> depth + 1 then Inl BufferOverflow
                     else (let s3 = s2\<lparr>buffer := (buffer s2)[depth + 1 := CHR 0x00]\<rparr>
                           in Inr (s3\<lparr>printed := printed s3 @ [c_string (buffer s3)]\<rparr>)))
                  else Inr s2)
            else Inr s1))"

partial_function (option) packed_dawg_walk_run ::
  "uint32 list \<Rightarrow> bool \<Rightarrow> wframe \<Rightarrow> walk_state \<Rightarrow> (error + walk_state) option" where
  "packed_dawg_walk_run dat print_words fr s =
     (case fr of
        WCall index depth \<Rightarrow>
          if index = 0 \<and> depth > 0 then Some (Inr s)
          else packed_dawg_walk_run dat print_words (WLoop index depth) s
      | WLoop index depth \<Rightarrow>
          if length dat \<le> index then Some (Inl DataOutOfBounds)
          else
            (let v = dat ! index in
             case walk_entry print_words v depth s of
               Inl e \<Rightarrow> Some (Inl e)
             | Inr s1 \<Rightarrow>
                 Option.bind
                   (if UNPACK_NEXT v \<noteq> 0
                    then packed_dawg_walk_run dat print_words
                           (WCall (unat (UNPACK_NEXT v)) (depth + 1)) s1
                    else Some (Inr s1))
                   (\<lambda>r. case r of
                      Inl e \<Rightarrow> Some (Inl e)
                    | Inr s2 \<Rightarrow>
                        if UNPACK_EON v \<noteq> 0 then Some (Inr s2)
                        else packed_dawg_walk_run dat print_words (WLoop (index + 1) depth) s2)))"

definition packed_dawg_walk ::
  "uint32 list \<Rightarrow> nat \<Rightarrow> nat \<Rightarrow> bool \<Rightarrow> walk_state \<Rightarrow> (error + walk_state) option" where
  "packed_dawg_walk dat index depth print_words s =
     packed_dawg_walk_run dat print_words (WCall index depth) s"

text \<open>
  \<^verbatim>\<open>packed_dawg_verify\<close> reads the file back and walks it from index 0 at depth 0 with a
  fresh 256-character buffer, whose initial contents are arbitrary.
\<close>

definition packed_dawg_verify ::
  "uint32 list \<Rightarrow> bool \<Rightarrow> string \<Rightarrow> (error + walk_state) option" where
  "packed_dawg_verify entries print_words buf =
     packed_dawg_walk entries 0 0 print_words \<lparr>buffer = buf, word_count = 0, printed = []\<rparr>"

section \<open>Specification of the trie phase\<close>

definition letter :: "nat \<Rightarrow> char" where
  "letter i = char_of (97 + i)"

definition lowercase :: "string \<Rightarrow> bool" where
  "lowercase w = list_all (\<lambda>c. 0 \<le> letter_index c \<and> letter_index c < 26) w"

definition trie_inv ::
  "heap \<Rightarrow> addr \<Rightarrow> (addr \<Rightarrow> string) \<Rightarrow> string set \<Rightarrow> string set \<Rightarrow> bool" where
  "trie_inv h root K P T \<longleftrightarrow>
     0 < root \<and> root < brk h \<and> K root = [] \<and>
     inj_on K {root..<brk h} \<and> K ` {root..<brk h} = P \<and> T \<subseteq> P \<and>
     (\<forall>p x. p @ [x] \<in> P \<longrightarrow> p \<in> P) \<and>
     (\<forall>p\<in>P. lowercase p) \<and>
     (\<forall>a. length (children (cells h a)) = ALPHABET_SIZE \<and>
          length (child_is_terminal (cells h a)) = ALPHABET_SIZE) \<and>
     (\<forall>a\<in>{root..<brk h}. \<forall>i<ALPHABET_SIZE.
        (child h a i = 0 \<longleftrightarrow> K a @ [letter i] \<notin> P) \<and>
        (child h a i \<noteq> 0 \<longrightarrow>
           a < child h a i \<and> child h a i < brk h \<and> K (child h a i) = K a @ [letter i])) \<and>
     (\<forall>a\<in>{root..<brk h}. is_end_of_word (cells h a) \<longleftrightarrow> K a \<in> T)"

definition ext :: "string \<Rightarrow> string \<Rightarrow> string set" where
  "ext p w = {p @ u | u. \<exists>v. u @ v = w}"

definition prefixes :: "string set \<Rightarrow> string set" where
  "prefixes T = {p. \<exists>u. p @ u \<in> T}"

definition eflag :: "heap \<Rightarrow> addr \<Rightarrow> nat \<Rightarrow> bool" where
  "eflag h a j = child_is_terminal (cells h a) ! j"

text \<open>Two heaps that differ at most in the edge flags.\<close>

definition same_struct :: "heap \<Rightarrow> heap \<Rightarrow> bool" where
  "same_struct h h0 \<longleftrightarrow>
     brk h = brk h0 \<and>
     (\<forall>a. children (cells h a) = children (cells h0 a) \<and>
          is_end_of_word (cells h a) = is_end_of_word (cells h0 a) \<and>
          visited (cells h a) = visited (cells h0 a) \<and>
          length (child_is_terminal (cells h a)) = ALPHABET_SIZE)"

text \<open>An edge whose flag already is the terminal flag of the node it leads to.\<close>

definition edge_done :: "heap \<Rightarrow> heap \<Rightarrow> addr \<Rightarrow> nat \<Rightarrow> bool" where
  "edge_done h0 h a j \<longleftrightarrow>
     (child h0 a j \<noteq> 0 \<longrightarrow> eflag h a j = is_end_of_word (cells h0 (child h0 a j)))"

definition only_moves :: "heap \<Rightarrow> heap \<Rightarrow> heap \<Rightarrow> bool" where
  "only_moves h0 h h' \<longleftrightarrow>
     (\<forall>a j. j < ALPHABET_SIZE \<longrightarrow>
        eflag h' a j = eflag h a j \<or>
        (child h0 a j \<noteq> 0 \<and> eflag h' a j = is_end_of_word (cells h0 (child h0 a j))))"

definition subtree :: "heap \<Rightarrow> addr \<Rightarrow> (addr \<Rightarrow> string) \<Rightarrow> addr \<Rightarrow> addr set" where
  "subtree h root K n = {a \<in> {root..<brk h}. \<exists>u. K a = K n @ u}"

definition fresh_flags :: "heap \<Rightarrow> bool" where
  "fresh_flags h \<longleftrightarrow> (\<forall>a. \<not> visited (cells h a) \<and> (\<forall>j<ALPHABET_SIZE. \<not> eflag h a j))"

definition edge_inv ::
  "heap \<Rightarrow> addr \<Rightarrow> (addr \<Rightarrow> string) \<Rightarrow> string set \<Rightarrow> string set \<Rightarrow> bool" where
  "edge_inv h root K P T \<longleftrightarrow>
     trie_inv h root K P T \<and> (\<forall>a. \<not> visited (cells h a)) \<and>
     (\<forall>a\<in>{root..<brk h}. \<forall>j<ALPHABET_SIZE. eflag h a j \<longleftrightarrow> K a @ [letter j] \<in> T)"

text \<open>
  The right language of a trie node: the non-empty suffixes that lead from the node to the
  end of a word.  With the terminal flags on the edges, these are the words that the
  subtree below the node accepts.
\<close>

definition rl :: "(addr \<Rightarrow> string) \<Rightarrow> string set \<Rightarrow> addr \<Rightarrow> string set" where
  "rl K T a = {u. u \<noteq> [] \<and> K a @ u \<in> T}"

definition start_inv :: "heap \<Rightarrow> addr \<Rightarrow> (addr \<Rightarrow> string) \<Rightarrow> string set \<Rightarrow> bool" where
  "start_inv h root K T \<longleftrightarrow> edge_inv h root K (insert [] (prefixes T)) T"

definition canon_set :: "HashMap \<Rightarrow> addr set" where
  "canon_set m = {c. \<exists>b. \<exists>e\<in>set (m b). canonical e = c}"

definition table_ok :: "heap \<Rightarrow> HashMap \<Rightarrow> bool" where
  "table_ok h m \<longleftrightarrow>
     (\<forall>b. \<forall>e\<in>set (m b).
        children_key e = children (cells h (canonical e)) \<and>
        terminal_key e = child_is_terminal (cells h (canonical e)) \<and>
        hash_node_sig (cells h (canonical e)) = b)"

text \<open>
  Edge \<open>j\<close> of node \<open>n\<close> has been rewired: it leads to a canonical node with the right
  language of the original child.
\<close>

definition rewired ::
  "heap \<Rightarrow> (addr \<Rightarrow> string) \<Rightarrow> string set \<Rightarrow> heap \<Rightarrow> addr set \<Rightarrow> addr \<Rightarrow> nat \<Rightarrow> bool" where
  "rewired h1 K T h C n j \<longleftrightarrow>
     (child h n j = 0 \<longleftrightarrow> child h1 n j = 0) \<and>
     (child h n j \<noteq> 0 \<longrightarrow> child h n j \<in> C \<and> rl K T (child h n j) = rl K T (child h1 n j)) \<and>
     eflag h n j = eflag h1 n j"

definition cinv ::
  "heap \<Rightarrow> addr \<Rightarrow> (addr \<Rightarrow> string) \<Rightarrow> string set \<Rightarrow> heap \<Rightarrow> HashMap \<Rightarrow> addr set \<Rightarrow> bool" where
  "cinv h1 root K T h m D \<longleftrightarrow>
     brk h = brk h1 \<and> D \<subseteq> {root<..<brk h1} \<and> canon_set m \<subseteq> D \<and>
     (\<forall>a. length (children (cells h a)) = ALPHABET_SIZE \<and>
          length (child_is_terminal (cells h a)) = ALPHABET_SIZE) \<and>
     table_ok h m \<and>
     (\<forall>c\<in>canon_set m. \<forall>j<ALPHABET_SIZE. rewired h1 K T h (canon_set m) c j) \<and>
     (\<forall>c\<in>canon_set m. \<forall>c'\<in>canon_set m. rl K T c = rl K T c' \<longrightarrow> c = c') \<and>
     (\<forall>a\<in>D. \<exists>c\<in>canon_set m. rl K T c = rl K T a)"

definition below :: "heap \<Rightarrow> addr \<Rightarrow> (addr \<Rightarrow> string) \<Rightarrow> addr \<Rightarrow> nat \<Rightarrow> addr set" where
  "below h1 root K n i =
     (\<Union>j\<in>{j. i \<le> j \<and> j < ALPHABET_SIZE \<and> child h1 n j \<noteq> 0}. subtree h1 root K (child h1 n j))"

text \<open>What a call of \<^verbatim>\<open>dawg_compress_node\<close> on an untouched subtree achieves.\<close>

definition call_ok ::
  "heap \<Rightarrow> addr \<Rightarrow> (addr \<Rightarrow> string) \<Rightarrow> string set \<Rightarrow> addr \<Rightarrow> bool" where
  "call_ok h1 root K T n \<longleftrightarrow>
     (\<forall>h m D. cinv h1 root K T h m D \<longrightarrow> subtree h1 root K n \<inter> D = {} \<longrightarrow>
        (\<forall>a\<in>subtree h1 root K n. cells h a = cells h1 a) \<longrightarrow>
        (\<exists>r h' m'. dawg_compress_run (Call n) h m = Some (r, h', m') \<and>
           cinv h1 root K T h' m' (D \<union> subtree h1 root K n) \<and> r \<in> canon_set m' \<and>
           rl K T r = rl K T n \<and> canon_set m \<subseteq> canon_set m' \<and>
           (\<forall>a. a \<notin> subtree h1 root K n \<longrightarrow> cells h' a = cells h a)))"

definition same_fields :: "TrieNode \<Rightarrow> TrieNode \<Rightarrow> bool" where
  "same_fields nd nd' \<longleftrightarrow>
     child_is_terminal nd = child_is_terminal nd' \<and> is_end_of_word nd = is_end_of_word nd' \<and>
     visited nd = visited nd'"

text \<open>
  The words accepted from a node, with the terminal flags on the edges: a path of
  existing edges whose last edge is flagged.
\<close>

fun accepts :: "heap \<Rightarrow> addr \<Rightarrow> string \<Rightarrow> bool" where
  "accepts h n [] = False"
| "accepts h n (c # w) =
     (0 \<le> letter_index c \<and> letter_index c < 26 \<and> child h n (nat (letter_index c)) \<noteq> 0 \<and>
      (if w = [] then eflag h n (nat (letter_index c))
       else accepts h (child h n (nat (letter_index c))) w))"

definition rlang :: "heap \<Rightarrow> addr \<Rightarrow> string set" where
  "rlang h n = {w. accepts h n w}"

inductive_set reach :: "heap \<Rightarrow> addr \<Rightarrow> addr set" for h :: heap and root :: addr where
  reach_root: "root \<in> reach h root"
| reach_child: "n \<in> reach h root \<Longrightarrow> j < ALPHABET_SIZE \<Longrightarrow> child h n j \<noteq> 0 \<Longrightarrow>
     child h n j \<in> reach h root"

text \<open>
  A set of nodes \<open>N\<close> of the heap is a deterministic automaton for the languages \<open>L\<close>:
  a node has a \<open>j\<close>-edge iff some word of its language starts with letter \<open>j\<close>, the edge
  is flagged iff that letter alone is a word, and the edge leads to a node of \<open>N\<close> with the
  rest of those words.
\<close>

definition lang_graph :: "heap \<Rightarrow> addr set \<Rightarrow> (addr \<Rightarrow> string set) \<Rightarrow> bool" where
  "lang_graph h N L \<longleftrightarrow>
     (\<forall>n\<in>N. (\<forall>w\<in>L n. w \<noteq> [] \<and> lowercase w) \<and>
        (\<forall>j<ALPHABET_SIZE.
           (child h n j \<noteq> 0 \<longleftrightarrow> (\<exists>u. letter j # u \<in> L n)) \<and>
           (child h n j \<noteq> 0 \<longrightarrow>
              child h n j \<in> N \<and> L (child h n j) = {u. u \<noteq> [] \<and> letter j # u \<in> L n}) \<and>
           (eflag h n j \<longleftrightarrow> [letter j] \<in> L n)))"

text \<open>The result of the build up to compression, with everything known about it.\<close>

definition dawg_inv ::
  "string set \<Rightarrow> addr \<Rightarrow> heap \<Rightarrow> heap \<Rightarrow> HashMap \<Rightarrow> (addr \<Rightarrow> string) \<Rightarrow> bool" where
  "dawg_inv T root h1 h m K \<longleftrightarrow>
     start_inv h1 root K T \<and> cinv h1 root K T h m {root<..<brk h1} \<and>
     (\<forall>j<ALPHABET_SIZE. rewired h1 K T h (canon_set m) root j) \<and>
     same_fields (cells h root) (cells h1 root)"

text \<open>
  The right language of a trie node in the usual sense, with the terminal flags on the
  nodes: the suffixes that lead from the node to a node that ends a word, the empty
  suffix included when the node itself ends a word.
\<close>

fun accepts_node :: "heap \<Rightarrow> addr \<Rightarrow> string \<Rightarrow> bool" where
  "accepts_node h n [] = is_end_of_word (cells h n)"
| "accepts_node h n (c # w) =
     (0 \<le> letter_index c \<and> letter_index c < 26 \<and> child h n (nat (letter_index c)) \<noteq> 0 \<and>
      accepts_node h (child h n (nat (letter_index c))) w)"

definition right_language :: "heap \<Rightarrow> addr \<Rightarrow> string set" where
  "right_language h n = {w. accepts_node h n w}"

definition trie_class_count :: "string list \<Rightarrow> nat option" where
  "trie_class_count ws =
     map_option (\<lambda>(root, h0). card (right_language h0 ` (reach h0 root - {root})))
       (trie_build ws)"

definition dawg_node_count :: "string list \<Rightarrow> nat option" where
  "dawg_node_count ws =
     map_option (\<lambda>(root, h, m). card (reach h root - {root})) (build_dawg ws)"

section \<open>Specification of flattening\<close>

text \<open>The number of children of a node, as \<^verbatim>\<open>count_children\<close> counts them.\<close>

definition cc :: "heap \<Rightarrow> addr \<Rightarrow> int" where
  "cc h n = count_children (cells h n)"

text \<open>The offset of a queued node: the child counts of the nodes queued before it.\<close>

definition off :: "heap \<Rightarrow> addr list \<Rightarrow> addr \<Rightarrow> int" where
  "off h q n = sum_list (map (cc h) (takeWhile (\<lambda>x. x \<noteq> n) q))"

text \<open>The slot of edge \<open>j\<close> in the block of its node: the existing edges before it.\<close>

definition slot_of :: "heap \<Rightarrow> addr \<Rightarrow> nat \<Rightarrow> int" where
  "slot_of h n j = int (length (filter (\<lambda>p. p \<noteq> 0) (take j (children (cells h n)))))"

text \<open>
  The graphs the flattener is run on: an automaton for the languages \<open>L\<close> in which
  different nodes have different languages and no edge leads back to the root.
\<close>

definition dawg :: "heap \<Rightarrow> addr \<Rightarrow> addr set \<Rightarrow> (addr \<Rightarrow> string set) \<Rightarrow> bool" where
  "dawg h root N L \<longleftrightarrow>
     lang_graph h N L \<and> root \<in> N \<and> finite N \<and> 0 \<notin> N \<and> inj_on L N \<and>
     (\<forall>n\<in>N. \<forall>j<ALPHABET_SIZE. child h n j \<noteq> root) \<and>
     (\<forall>a. length (children (cells h a)) = ALPHABET_SIZE)"

definition assigned :: "OffsetMap \<Rightarrow> addr \<Rightarrow> bool" where
  "assigned om n \<longleftrightarrow> offset_map_get om n \<noteq> - 1"

text \<open>The invariant of phase 1, with \<open>qf\<close> nodes of the queue already taken out.\<close>

definition assign_inv :: "heap \<Rightarrow> addr \<Rightarrow> addr set \<Rightarrow> nat \<Rightarrow> assign_state \<Rightarrow> bool" where
  "assign_inv h root N qf st \<longleftrightarrow>
     (case st of (queue, om, sz) \<Rightarrow>
        qf \<le> length queue \<and> distinct queue \<and> set queue \<subseteq> N \<and> queue \<noteq> [] \<and> hd queue = root \<and>
        (\<forall>n\<in>set queue. offset_map_get om n = off h queue n) \<and>
        (\<forall>n. n \<notin> set queue \<longrightarrow>
           \<not> assigned om n \<or> (offset_map_get om n = 0 \<and> cc h n = 0 \<and> n \<in> N)) \<and>
        (\<forall>n\<in>set queue. n = root \<or> 0 < cc h n) \<and>
        sz = sum_list (map (cc h) queue) \<and>
        (\<forall>k<qf. \<forall>j<ALPHABET_SIZE. child h (queue ! k) j \<noteq> 0 \<longrightarrow>
           assigned om (child h (queue ! k) j)) \<and>
        (\<forall>k<length queue. k = 0 \<or> (\<exists>k'<k. \<exists>j<ALPHABET_SIZE. child h (queue ! k') j = queue ! k)))"

definition entry_of :: "heap \<Rightarrow> OffsetMap \<Rightarrow> addr \<Rightarrow> nat \<Rightarrow> uint32" where
  "entry_of h om n j =
     pack_entry j (child_is_terminal (cells h n) ! j) (slot_of h n j = cc h n - 1)
       (offset_map_get om (child h n j))"

text \<open>The child block of a node holds one entry per existing edge, at the edge's slot.\<close>

definition block_written :: "heap \<Rightarrow> OffsetMap \<Rightarrow> (int \<Rightarrow> uint32) \<Rightarrow> addr \<Rightarrow> bool" where
  "block_written h om dat n \<longleftrightarrow>
     (\<forall>j<ALPHABET_SIZE. child h n j \<noteq> 0 \<longrightarrow>
        dat (offset_map_get om n + slot_of h n j) = entry_of h om n j)"

definition in_block :: "heap \<Rightarrow> OffsetMap \<Rightarrow> addr \<Rightarrow> int \<Rightarrow> bool" where
  "in_block h om n k \<longleftrightarrow> offset_map_get om n \<le> k \<and> k < offset_map_get om n + cc h n"

text \<open>The invariant of phase 2, with \<open>qf\<close> nodes of its queue already taken out.\<close>

definition fill_inv ::
  "heap \<Rightarrow> addr \<Rightarrow> addr list \<Rightarrow> OffsetMap \<Rightarrow> nat \<Rightarrow> fill_state \<Rightarrow> bool" where
  "fill_inv h root queue1 om qf st \<longleftrightarrow>
     (case st of (dat, vis, queue) \<Rightarrow>
        qf \<le> length queue \<and> distinct queue \<and> set queue \<subseteq> set queue1 \<and> root \<in> set queue \<and>
        (\<forall>n. assigned vis n \<longleftrightarrow> n \<in> set queue) \<and>
        (\<forall>k<qf. block_written h om dat (queue ! k)) \<and>
        (\<forall>k<qf. \<forall>j<ALPHABET_SIZE.
           child h (queue ! k) j \<noteq> 0 \<and> 0 < cc h (child h (queue ! k) j) \<longrightarrow>
           child h (queue ! k) j \<in> set queue))"

text \<open>The queue of phase 2 and its \<^verbatim>\<open>visited\<close> map, within the queue of phase 1.\<close>

definition queue_ok :: "addr \<Rightarrow> addr list \<Rightarrow> OffsetMap \<Rightarrow> addr list \<Rightarrow> bool" where
  "queue_ok root queue1 vis queue \<longleftrightarrow>
     distinct queue \<and> set queue \<subseteq> set queue1 \<and> root \<in> set queue \<and>
     (\<forall>n. assigned vis n \<longleftrightarrow> n \<in> set queue)"

text \<open>
  What flattening achieves: phase 1 ends with a queue, the offsets and the size of the
  image, and phase 2 writes the block of every queued node.
\<close>

definition flat_ok ::
  "heap \<Rightarrow> addr \<Rightarrow> addr set \<Rightarrow> addr list \<Rightarrow> OffsetMap \<Rightarrow> PackedDAWG \<Rightarrow> bool" where
  "flat_ok h root N queue om pd \<longleftrightarrow>
     flatten_offsets root h = Some (queue, om, size pd) \<and>
     assign_inv h root N (length queue) (queue, om, size pd) \<and>
     (\<forall>n\<in>set queue. block_written h om (data pd) n)"

text \<open>
  A one-to-one correspondence \<open>R\<close> between nodes of two heaps that respects the edges and
  their flags.
\<close>

definition sim :: "heap \<Rightarrow> heap \<Rightarrow> (addr \<Rightarrow> addr \<Rightarrow> bool) \<Rightarrow> bool" where
  "sim h h' R \<longleftrightarrow>
     (\<forall>n n' n''. R n n' \<longrightarrow> R n n'' \<longrightarrow> n' = n'') \<and>
     (\<forall>n n' n''. R n n'' \<longrightarrow> R n' n'' \<longrightarrow> n = n') \<and>
     (\<forall>a. length (children (cells h a)) = ALPHABET_SIZE) \<and>
     (\<forall>a. length (children (cells h' a)) = ALPHABET_SIZE) \<and>
     (\<forall>n n'. R n n' \<longrightarrow>
        (\<forall>j<ALPHABET_SIZE.
           (child h n j = 0 \<longleftrightarrow> child h' n' j = 0) \<and>
           (child h n j \<noteq> 0 \<longrightarrow> R (child h n j) (child h' n' j)) \<and>
           child_is_terminal (cells h n) ! j = child_is_terminal (cells h' n') ! j))"

definition om_rel :: "(addr \<Rightarrow> addr \<Rightarrow> bool) \<Rightarrow> OffsetMap \<Rightarrow> OffsetMap \<Rightarrow> bool" where
  "om_rel R om om' \<longleftrightarrow> (\<forall>n n'. R n n' \<longrightarrow> offset_map_get om n = offset_map_get om' n')"

definition assign_rel ::
  "(addr \<Rightarrow> addr \<Rightarrow> bool) \<Rightarrow> assign_state \<Rightarrow> assign_state \<Rightarrow> bool" where
  "assign_rel R st st' \<longleftrightarrow>
     (case st of (queue, om, sz) \<Rightarrow> case st' of (queue', om', sz') \<Rightarrow>
        list_all2 R queue queue' \<and> om_rel R om om' \<and> sz = sz')"

definition fill_rel ::
  "(addr \<Rightarrow> addr \<Rightarrow> bool) \<Rightarrow> fill_state \<Rightarrow> fill_state \<Rightarrow> bool" where
  "fill_rel R st st' \<longleftrightarrow>
     (case st of (dat, vis, queue) \<Rightarrow> case st' of (dat', vis', queue') \<Rightarrow>
        dat = dat' \<and> om_rel R vis vis' \<and> list_all2 R queue queue')"

text \<open>The states of the inner loop of phase 2 on two heaps, in step.\<close>

definition emit_rel ::
  "(addr \<Rightarrow> addr \<Rightarrow> bool) \<Rightarrow> emit_state \<Rightarrow> emit_state \<Rightarrow> bool" where
  "emit_rel R st st' \<longleftrightarrow> fst st = fst st' \<and> fill_rel R (snd st) (snd st')"

section \<open>Specification of the walk\<close>

text \<open>The words of a node that start with the letter of slot \<open>s\<close> or of a later slot.\<close>

definition slot_lang :: "heap \<Rightarrow> (addr \<Rightarrow> string set) \<Rightarrow> addr \<Rightarrow> int \<Rightarrow> string set" where
  "slot_lang h L n s =
     {u \<in> L n. \<exists>j<ALPHABET_SIZE. \<exists>u'. u = letter j # u' \<and> s \<le> slot_of h n j}"

text \<open>
  What a part of the walk does to the state: the buffer keeps its length and its first
  \<open>length p\<close> characters, the words \<open>p @ u\<close> for \<open>u\<close> in \<open>S\<close> are counted and, if asked
  for, printed, each once.
\<close>

definition walk_post :: "bool \<Rightarrow> string \<Rightarrow> string set \<Rightarrow> walk_state \<Rightarrow> walk_state \<Rightarrow> bool" where
  "walk_post pw p S st st' \<longleftrightarrow>
     length (buffer st') = length (buffer st) \<and>
     take (length p) (buffer st') = take (length p) (buffer st) \<and>
     (\<exists>out. set out = (\<lambda>u. p @ u) ` S \<and> distinct out \<and>
        printed st' = printed st @ (if pw then out else []) \<and>
        word_count st' = word_count st + int (length out))"

section \<open>Running the model on concrete inputs\<close>

lemma letters_unfold:
  "[0..<ALPHABET_SIZE] =
     [0,1,2,3,4,5,6,7,8,9,10,11,12,13,14,15,16,17,18,19,20,21,22,23,24,25]"
  by (simp add: upt_rec)

lemma replicate_alphabet:
  "replicate ALPHABET_SIZE x = [x,x,x,x,x,x,x,x,x,x,x,x,x,x,x,x,x,x,x,x,x,x,x,x,x,x]"
  by (simp add: numeral_eq_Suc)

lemma bind_weak_cong: "x = y \<Longrightarrow> Option.bind x f = Option.bind y f"
  by simp

lemma map_option_weak_cong: "x = y \<Longrightarrow> map_option f x = map_option f y"
  by simp

lemma Let_weak_cong: "x = y \<Longrightarrow> Let x f = Let y f"
  by simp

lemmas run_congs =
  bind_weak_cong map_option_weak_cong Let_weak_cong option.case_cong_weak
  prod.case_cong_weak sum.case_cong_weak frame.case_cong_weak wframe.case_cong_weak

lemmas heap_defs =
  trie_create_node_def empty_heap_def zero_node_def upd_node_def child_def set_child_def
  replicate_alphabet letters_unfold

lemmas build_defs =
  trie_build_def letter_index_def trie_move_eow_to_edges_def trie_move_eow_run.simps
  dawg_compress_run.simps dawg_compress_def build_dawg_def hashmap_create_def
  hashmap_find_or_insert_def hash_node_sig_def Let_def

lemmas offset_defs =
  flatten_offsets_def flatten_assign.simps assign_child_def count_children_def
  offset_map_get_def offset_map_put_def offset_map_create_def hash_ptr_def

lemmas fill_defs =
  flatten_fill.simps emit_child_def count_children_def offset_map_get_def offset_map_put_def
  offset_map_create_def hash_ptr_def

lemmas pack_defs =
  packed_file_def pack_entry_def PACK_CHAR_def PACK_EOW_def PACK_EON_def PACK_NEXT_def

lemmas unpack_defs =
  UNPACK_CHAR_def UNPACK_EOW_def UNPACK_EON_def UNPACK_NEXT_def

lemma binary_ab_ac: "build_binary [''ab'', ''ac''] = Some [193, 34, 99]"
  apply (simp add: build_binary_def build_packed_def cong: run_congs)
  apply (simp add: heap_defs build_defs cong: run_congs)
  apply (simp add: dawg_flatten_def cong: run_congs)
  apply (simp add: heap_defs offset_defs cong: run_congs)
  apply (simp add: packed_dawg_create_def Let_def cong: run_congs)
  apply (simp add: heap_defs fill_defs cong: run_congs)
  apply (simp add: pack_defs upt_rec)
  done

lemma nodes_ab_ac:
  "Option.bind (build_dawg [''ab'', ''ac'']) (\<lambda>(root, h, m). dawg_nodes root h) = Some 3"
  apply (simp add: heap_defs build_defs cong: run_congs)
  apply (simp add: dawg_nodes_def heap_defs dawg_reset_visited_run.simps cong: run_congs)
  apply (simp add: heap_defs dawg_count_nodes_run.simps cong: run_congs)
  done

lemma binary_empty: "build_binary [] = Some []"
  apply (simp add: build_binary_def build_packed_def cong: run_congs)
  apply (simp add: heap_defs build_defs cong: run_congs)
  apply (simp add: dawg_flatten_def cong: run_congs)
  apply (simp add: heap_defs offset_defs cong: run_congs)
  apply (simp add: packed_dawg_create_def Let_def cong: run_congs)
  apply (simp add: heap_defs fill_defs cong: run_congs)
  apply (simp add: pack_defs)
  done

section \<open>The trie built by insertion\<close>

lemma letter_index_letter: "i < 26 \<Longrightarrow> letter_index (letter i) = int i"
  by (simp add: letter_def letter_index_def)

lemma letter_of_index:
  assumes "0 \<le> letter_index c" "letter_index c < 26"
  shows "letter (nat (letter_index c)) = c"
proof -
  have "97 + nat (int (of_char c) - 97) = (of_char c :: nat)"
    using assms by (simp add: letter_index_def)
  then show ?thesis
    by (simp add: letter_def letter_index_def)
qed

lemma letter_inj: "i < 26 \<Longrightarrow> j < 26 \<Longrightarrow> letter i = letter j \<Longrightarrow> i = j"
  using letter_index_letter by (metis of_nat_eq_iff)

lemma trie_inv_create: "trie_inv (snd (trie_create_node empty_heap)) 1 (\<lambda>_. []) {[]} {}"
  by (auto simp: trie_inv_def trie_create_node_def empty_heap_def zero_node_def child_def lowercase_def inj_on_def)

lemma trie_inv_set_eow:
  assumes "trie_inv h root K P T" "current \<in> {root..<brk h}"
  shows "trie_inv (upd_node current (\<lambda>nd. nd\<lparr>is_end_of_word := True\<rparr>) h) root K P (insert (K current) T)"
  using assms
  apply (simp add: trie_inv_def upd_node_def child_def)
  apply (auto simp: inj_on_def)
  done

lemma trie_inv_alloc:
  assumes inv: "trie_inv h root K P T" and cur: "current \<in> {root..<brk h}"
    and i: "i < ALPHABET_SIZE" and nochild: "child h current i = 0"
  defines "b \<equiv> brk h"
  defines "h2 \<equiv> set_child current i b (snd (trie_create_node h))"
  defines "K1 \<equiv> K(b := K current @ [letter i])"
  shows "trie_inv h2 root K1 (insert (K current @ [letter i]) P) T"
proof -
  let ?k = "K current @ [letter i]"
  have brk2: "brk h2 = Suc b"
    by (simp add: h2_def b_def set_child_def upd_node_def trie_create_node_def)
  have curb: "current < b" "root \<le> current" "current \<noteq> b"
    using cur by (auto simp: b_def)
  have cells2: "cells h2 a =
      (if a = current then (cells h current)\<lparr>children := (children (cells h current))[i := b]\<rparr>
       else if a = b then zero_node else cells h a)" for a
    using curb by (simp add: h2_def b_def set_child_def upd_node_def trie_create_node_def)
  have knew: "?k \<notin> P"
    using inv cur i nochild unfolding trie_inv_def by blast
  have img: "K ` {root..<b} = P" and inj: "inj_on K {root..<b}"
    using inv unfolding trie_inv_def b_def by auto
  have K1old: "K1 a = K a" if "a < b" for a
    using that by (simp add: K1_def)
  have K1b: "K1 b = ?k"
    by (simp add: K1_def)
  have lens: "length (children (cells h a)) = ALPHABET_SIZE"
    "length (child_is_terminal (cells h a)) = ALPHABET_SIZE" for a
    using inv unfolding trie_inv_def by auto
  have pc: "p @ [x] \<in> P \<Longrightarrow> p \<in> P" for p x
    using inv unfolding trie_inv_def by blast
  have curP: "K current \<in> P"
    using img cur by (auto simp: b_def)
  have rootb: "0 < root" "root < b" "K root = []"
    using inv unfolding trie_inv_def b_def by auto
  have c1: "inj_on K1 {root..<Suc b}"
  proof -
    have "{root..<Suc b} = insert b {root..<b}" using rootb by auto
    moreover have "K1 b \<notin> K1 ` ({root..<b} - {b})"
      using knew img K1old K1b by (auto simp: image_iff)
    moreover have "inj_on K1 {root..<b}"
      using inj K1old by (auto simp: inj_on_def)
    ultimately show ?thesis by (simp add: inj_on_insert)
  qed
  have c2: "K1 ` {root..<Suc b} = insert ?k P"
  proof -
    have "{root..<Suc b} = insert b {root..<b}" using rootb by auto
    moreover have "K1 ` {root..<b} = K ` {root..<b}"
      using K1old by (auto simp: image_iff)
    ultimately show ?thesis using img K1b by simp
  qed
  have c3: "T \<subseteq> insert ?k P" using inv unfolding trie_inv_def by auto
  have c4: "\<forall>p x. p @ [x] \<in> insert ?k P \<longrightarrow> p \<in> insert ?k P"
    using pc curP by auto
  have lowc: "lowercase [letter i]"
    using i by (simp add: lowercase_def letter_index_letter)
  have c5: "\<forall>p\<in>insert ?k P. lowercase p"
    using inv curP lowc unfolding trie_inv_def by (auto simp: lowercase_def)
  have c6: "\<forall>a. length (children (cells h2 a)) = ALPHABET_SIZE \<and>
          length (child_is_terminal (cells h2 a)) = ALPHABET_SIZE"
    using lens by (simp add: cells2 zero_node_def)
  have old: "\<And>a j. a \<in> {root..<b} \<Longrightarrow> j < ALPHABET_SIZE \<Longrightarrow>
        (child h a j = 0 \<longleftrightarrow> K a @ [letter j] \<notin> P) \<and>
        (child h a j \<noteq> 0 \<longrightarrow>
           a < child h a j \<and> child h a j < b \<and> K (child h a j) = K a @ [letter j])"
    using inv unfolding trie_inv_def b_def by blast
  have c7: "(child h2 a j = 0 \<longleftrightarrow> K1 a @ [letter j] \<notin> insert ?k P) \<and>
        (child h2 a j \<noteq> 0 \<longrightarrow>
           a < child h2 a j \<and> child h2 a j < Suc b \<and> K1 (child h2 a j) = K1 a @ [letter j])"
    if a: "a \<in> {root..<Suc b}" and j: "j < ALPHABET_SIZE" for a j
  proof (cases "a = b")
    case True
    have "K1 b @ [letter j] \<notin> insert ?k P"
      using knew pc K1b by auto
    then show ?thesis using True j curb by (auto simp: child_def cells2 zero_node_def)
  next
    case ab: False
    then have ain: "a \<in> {root..<b}" using a by auto
    show ?thesis
    proof (cases "a = current")
      case True
      show ?thesis
      proof (cases "j = i")
        case True
        then show ?thesis
          using \<open>a = current\<close> i lens curb rootb K1b K1old by (simp add: child_def cells2)
      next
        case False
        then have "letter j \<noteq> letter i" using letter_inj i j by blast
        then show ?thesis
          using \<open>a = current\<close> False old[OF ain j] K1old curb
          by (auto simp: child_def cells2)
      qed
    next
      case False
      then have "K a \<noteq> K current"
        using inj ain cur by (auto simp: inj_on_def b_def)
      then show ?thesis
        using False ab old[OF ain j] K1old ain
        by (auto simp: child_def cells2)
    qed
  qed
  have c8: "is_end_of_word (cells h2 a) \<longleftrightarrow> K1 a \<in> T" if a: "a \<in> {root..<Suc b}" for a
  proof (cases "a = b")
    case True
    then show ?thesis using knew c3 K1b inv curb unfolding trie_inv_def
      by (auto simp: cells2 zero_node_def)
  next
    case False
    then have ain: "a \<in> {root..<b}" using a by auto
    then have "is_end_of_word (cells h a) \<longleftrightarrow> K a \<in> T"
      using inv unfolding trie_inv_def b_def by blast
    then show ?thesis using False ain K1old by (auto simp: cells2)
  qed
  have c0: "0 < root \<and> root < Suc b \<and> K1 root = []"
    using rootb K1old by simp
  have c7': "\<forall>a\<in>{root..<Suc b}. \<forall>j<ALPHABET_SIZE.
        (child h2 a j = 0 \<longleftrightarrow> K1 a @ [letter j] \<notin> insert ?k P) \<and>
        (child h2 a j \<noteq> 0 \<longrightarrow>
           a < child h2 a j \<and> child h2 a j < Suc b \<and> K1 (child h2 a j) = K1 a @ [letter j])"
    using c7 by blast
  have c8': "\<forall>a\<in>{root..<Suc b}. is_end_of_word (cells h2 a) \<longleftrightarrow> K1 a \<in> T"
    using c8 by blast
  show ?thesis
    unfolding trie_inv_def brk2
    using c0 c1 c2 c3 c4 c5 c6 c7' c8' by blast
qed

lemma ext_Nil: "ext p [] = {p}"
  by (auto simp: ext_def)

lemma ext_Cons: "ext p (c # w) = insert p (ext (p @ [c]) w)"
proof -
  have "(\<exists>v. u @ v = c # w) \<longleftrightarrow> u = [] \<or> (\<exists>u'. u = c # u' \<and> (\<exists>v. u' @ v = w))" for u
    by (cases u) auto
  then show ?thesis
    unfolding ext_def by (auto 4 3)
qed

lemma trie_insert_inv:
  assumes "lowercase w" "trie_inv h root K P T" "current \<in> {root..<brk h}"
  shows "\<exists>h' K'. trie_insert current w h = Some h' \<and>
           trie_inv h' root K' (P \<union> ext (K current) w) (insert (K current @ w) T)"
  using assms
proof (induction w arbitrary: h K P current)
  case Nil
  have "K current \<in> P"
    using Nil.prems unfolding trie_inv_def by blast
  then have "P \<union> ext (K current) [] = P" by (auto simp: ext_Nil)
  then show ?case
    using trie_inv_set_eow[OF Nil.prems(2,3)] by auto
next
  case (Cons c w)
  let ?i = "nat (letter_index c)"
  have c: "0 \<le> letter_index c" "letter_index c < 26" and w: "lowercase w"
    using Cons.prems(1) by (auto simp: lowercase_def)
  have i: "?i < ALPHABET_SIZE" using c by auto
  have li: "letter ?i = c" using c by (rule letter_of_index)
  have curP: "K current \<in> P"
    using Cons.prems unfolding trie_inv_def by blast
  show ?case
  proof (cases "child h current ?i = 0")
    case True
    let ?b = "brk h"
    let ?h2 = "set_child current ?i ?b (snd (trie_create_node h))"
    let ?K1 = "K(?b := K current @ [c])"
    have inv2: "trie_inv ?h2 root ?K1 (insert (K current @ [c]) P) T"
      using trie_inv_alloc[OF Cons.prems(2,3) i True] li by simp
    have b2: "?b \<in> {root..<brk ?h2}"
      using Cons.prems(3) by (simp add: set_child_def upd_node_def trie_create_node_def)
    obtain h' K' where r: "trie_insert ?b w ?h2 = Some h'"
      "trie_inv h' root K' (insert (K current @ [c]) P \<union> ext (?K1 ?b) w)
         (insert (?K1 ?b @ w) T)"
      using Cons.IH[OF w inv2 b2] by blast
    have "trie_insert current (c # w) h = Some h'"
      using r(1) True c by (simp add: trie_create_node_def)
    moreover have "insert (K current @ [c]) P \<union> ext (?K1 ?b) w = P \<union> ext (K current) (c # w)"
    proof -
      have "K current @ [c] \<in> ext (K current @ [c]) w"
        by (auto simp: ext_def)
      then show ?thesis using curP by (auto simp: ext_Cons)
    qed
    ultimately show ?thesis using r(2) by auto
  next
    case False
    let ?ch = "child h current ?i"
    have str: "?ch \<noteq> 0 \<longrightarrow>
           current < ?ch \<and> ?ch < brk h \<and> K ?ch = K current @ [letter ?i]"
      using Cons.prems(2,3) i unfolding trie_inv_def by blast
    have ch: "?ch \<in> {root..<brk h}" "K ?ch = K current @ [c]"
      using str False li Cons.prems(3) by auto
    obtain h' K' where r: "trie_insert ?ch w h = Some h'"
      "trie_inv h' root K' (P \<union> ext (K ?ch) w) (insert (K ?ch @ w) T)"
      using Cons.IH[OF w Cons.prems(2) ch(1)] by blast
    have "trie_insert current (c # w) h = Some h'"
      using r(1) False c by simp
    moreover have "P \<union> ext (K ?ch) w = P \<union> ext (K current) (c # w)"
      using curP ch(2) by (auto simp: ext_Cons)
    ultimately show ?thesis using r(2) ch(2) by auto
  qed
qed

lemma ext_prefixes: "ext [] w = prefixes {w}"
  by (auto simp: ext_def prefixes_def)

lemma prefixes_Un: "prefixes (A \<union> B) = prefixes A \<union> prefixes B"
  by (auto simp: prefixes_def)

lemma prefixes_empty: "prefixes {} = {}"
  by (auto simp: prefixes_def)

lemma trie_insert_all_inv:
  assumes "list_all lowercase ws" "trie_inv h root K P T"
  shows "\<exists>h' K'. trie_insert_all root ws h = Some h' \<and>
           trie_inv h' root K' (P \<union> prefixes (set ws)) (T \<union> set ws)"
  using assms
proof (induction ws arbitrary: h K P T)
  case Nil
  then show ?case by (auto simp: prefixes_empty)
next
  case (Cons w ws)
  have root: "root \<in> {root..<brk h}" "K root = []"
    using Cons.prems(2) unfolding trie_inv_def by auto
  obtain h1 K1 where 1: "trie_insert root w h = Some h1"
    "trie_inv h1 root K1 (P \<union> prefixes {w}) (insert w T)"
    using trie_insert_inv[OF _ Cons.prems(2) root(1), of w] Cons.prems(1) root(2)
    by (auto simp: ext_prefixes)
  obtain h' K' where 2: "trie_insert_all root ws h1 = Some h'"
    "trie_inv h' root K' (P \<union> prefixes {w} \<union> prefixes (set ws)) (insert w T \<union> set ws)"
    using Cons.IH[OF _ 1(2)] Cons.prems(1) by auto
  have "P \<union> prefixes {w} \<union> prefixes (set ws) = P \<union> prefixes (set (w # ws))"
    using prefixes_Un[of "{w}" "set ws"] by auto
  then show ?case using 1(1) 2 by auto
qed

lemma trie_build_inv:
  assumes "list_all lowercase ws"
  shows "\<exists>h K. trie_build ws = Some (1, h) \<and>
           trie_inv h 1 K (insert [] (prefixes (set ws))) (set ws)"
proof -
  have "fst (trie_create_node empty_heap) = 1"
    by (simp add: trie_create_node_def empty_heap_def)
  then show ?thesis
    using trie_insert_all_inv[OF assms trie_inv_create]
    by (auto simp: trie_build_def split: prod.splits)
qed

text \<open>Inserting a word that is already in the trie changes nothing.\<close>

lemma upd_node_same: "f (cells h a) = cells h a \<Longrightarrow> upd_node a f h = h"
  by (simp add: upd_node_def)

lemma trie_insert_present:
  assumes "lowercase w" "trie_inv h root K P T" "current \<in> {root..<brk h}" "K current @ w \<in> T"
  shows "trie_insert current w h = Some h"
  using assms
proof (induction w arbitrary: current)
  case Nil
  then have "is_end_of_word (cells h current)"
    unfolding trie_inv_def by auto
  then show ?case by (simp add: upd_node_same)
next
  case (Cons c w)
  let ?i = "nat (letter_index c)"
  have c: "0 \<le> letter_index c" "letter_index c < 26" and w: "lowercase w"
    using Cons.prems(1) by (auto simp: lowercase_def)
  have i: "?i < ALPHABET_SIZE" using c by auto
  have li: "letter ?i = c" using c by (rule letter_of_index)
  have pc: "p @ u \<in> P \<Longrightarrow> p \<in> P" for p u
  proof (induction u rule: rev_induct)
    case Nil then show ?case by simp
  next
    case (snoc x xs)
    then show ?case using Cons.prems(2) unfolding trie_inv_def
      by (metis append.assoc)
  qed
  have "(K current @ [c]) @ w \<in> P"
    using Cons.prems(2,4) unfolding trie_inv_def by auto
  then have inP: "K current @ [letter ?i] \<in> P" using pc[of "K current @ [c]" w] li by simp
  have str: "(child h current ?i = 0 \<longleftrightarrow> K current @ [letter ?i] \<notin> P) \<and>
        (child h current ?i \<noteq> 0 \<longrightarrow>
           current < child h current ?i \<and> child h current ?i < brk h \<and>
           K (child h current ?i) = K current @ [letter ?i])"
    using Cons.prems(2,3) i unfolding trie_inv_def by blast
  have ch: "child h current ?i \<noteq> 0" "child h current ?i \<in> {root..<brk h}"
    "K (child h current ?i) = K current @ [c]"
    using str inP li Cons.prems(3) by auto
  have "trie_insert (child h current ?i) w h = Some h"
    using Cons.IH[OF w Cons.prems(2) ch(2)] ch(3) Cons.prems(4) by simp
  then show ?case using ch(1) c by simp
qed

section \<open>Moving the terminal flags\<close>

lemma move_Call:
  "trie_move_eow_run (Call node) h =
     (if node = 0 then Some h else trie_move_eow_run (Loop node 0) h)"
  by (subst trie_move_eow_run.simps) simp

lemma move_Loop:
  "trie_move_eow_run (Loop node i) h =
     (if i < ALPHABET_SIZE then
        (if child h node i \<noteq> 0 then
           Option.bind
             (trie_move_eow_run (Call (child h node i))
                (upd_node node (\<lambda>nd. nd\<lparr>child_is_terminal :=
                    (child_is_terminal nd)[i := is_end_of_word (cells h (child h node i))]\<rparr>) h))
             (\<lambda>h1. trie_move_eow_run (Loop node (Suc i)) h1)
         else trie_move_eow_run (Loop node (Suc i)) h)
      else Some h)"
  by (subst trie_move_eow_run.simps) simp

lemma only_moves_refl: "only_moves h0 h h"
  by (simp add: only_moves_def)

lemma only_moves_trans: "only_moves h0 h h1 \<Longrightarrow> only_moves h0 h1 h2 \<Longrightarrow> only_moves h0 h h2"
  unfolding only_moves_def by metis

lemma edge_done_mono:
  "only_moves h0 h h' \<Longrightarrow> j < ALPHABET_SIZE \<Longrightarrow> edge_done h0 h a j \<Longrightarrow> edge_done h0 h' a j"
  unfolding only_moves_def edge_done_def by metis

lemma prefix_closed:
  assumes "trie_inv h root K P T" "p @ u \<in> P"
  shows "p \<in> P"
  using assms(2)
proof (induction u rule: rev_induct)
  case Nil then show ?case by simp
next
  case (snoc x xs)
  then show ?case using assms(1) unfolding trie_inv_def
    by (metis append.assoc)
qed

lemma lowercase_letter:
  assumes "lowercase (p @ x # u)"
  shows "\<exists>k<ALPHABET_SIZE. x = letter k"
proof -
  have "0 \<le> letter_index x" "letter_index x < 26"
    using assms by (auto simp: lowercase_def)
  then show ?thesis
    using letter_of_index[of x] by (intro exI[of _ "nat (letter_index x)"]) auto
qed

lemma trie_child:
  assumes "trie_inv h root K P T" "a \<in> {root..<brk h}" "j < ALPHABET_SIZE" "child h a j \<noteq> 0"
  shows "a < child h a j" "child h a j < brk h" "K (child h a j) = K a @ [letter j]"
    "child h a j \<in> {root..<brk h}"
proof -
  have "child h a j \<noteq> 0 \<longrightarrow>
           a < child h a j \<and> child h a j < brk h \<and> K (child h a j) = K a @ [letter j]"
    using assms(1-3) unfolding trie_inv_def by blast
  then show "a < child h a j" "child h a j < brk h" "K (child h a j) = K a @ [letter j]"
    "child h a j \<in> {root..<brk h}"
    using assms(2,4) by auto
qed

lemma trie_child_iff:
  assumes "trie_inv h root K P T" "a \<in> {root..<brk h}" "j < ALPHABET_SIZE"
  shows "child h a j \<noteq> 0 \<longleftrightarrow> K a @ [letter j] \<in> P"
  using assms unfolding trie_inv_def by simp

lemma subtree_unfold:
  assumes inv: "trie_inv h root K P T" and n: "n \<in> {root..<brk h}"
  shows "subtree h root K n =
     insert n (\<Union>k\<in>{k. k < ALPHABET_SIZE \<and> child h n k \<noteq> 0}. subtree h root K (child h n k))"
    (is "?L = ?R")
proof (intro set_eqI iffI)
  fix a assume "a \<in> ?L"
  then obtain u where a: "a \<in> {root..<brk h}" and u: "K a = K n @ u"
    by (auto simp: subtree_def)
  have inj: "inj_on K {root..<brk h}" and img: "K ` {root..<brk h} = P"
    and low: "\<forall>p\<in>P. lowercase p"
    using inv unfolding trie_inv_def by auto
  show "a \<in> ?R"
  proof (cases u)
    case Nil
    then have "a = n" using inj a n u by (auto simp: inj_on_def)
    then show ?thesis by simp
  next
    case (Cons x u')
    have KaP: "K a \<in> P" using img a by blast
    then have "lowercase (K n @ x # u')" using low u Cons by auto
    then obtain k where k: "k < ALPHABET_SIZE" "x = letter k"
      using lowercase_letter by blast
    have "(K n @ [letter k]) @ u' \<in> P" using KaP u Cons k by simp
    then have "K n @ [letter k] \<in> P" using prefix_closed[OF inv] by blast
    then have ch: "child h n k \<noteq> 0" using trie_child_iff[OF inv n k(1)] by simp
    have "K (child h n k) = K n @ [letter k]" using trie_child(3)[OF inv n k(1) ch] .
    then have "a \<in> subtree h root K (child h n k)"
      using a u Cons k by (auto simp: subtree_def)
    then show ?thesis using k ch by auto
  qed
next
  fix a assume "a \<in> ?R"
  then consider "a = n" | k where "k < ALPHABET_SIZE" "child h n k \<noteq> 0"
    "a \<in> subtree h root K (child h n k)" by auto
  then show "a \<in> ?L"
  proof cases
    case 1 then show ?thesis using n by (auto simp: subtree_def)
  next
    case 2
    have "K (child h n k) = K n @ [letter k]" using trie_child(3)[OF inv n 2(1,2)] .
    then show ?thesis using 2(3) by (auto simp: subtree_def)
  qed
qed

lemma same_struct_child: "same_struct h h0 \<Longrightarrow> child h a j = child h0 a j"
  by (simp add: same_struct_def child_def)

lemma same_struct_set_flag:
  assumes "same_struct h h0"
  shows "same_struct (upd_node n (\<lambda>nd. nd\<lparr>child_is_terminal :=
            (child_is_terminal nd)[i := b]\<rparr>) h) h0"
  using assms by (simp add: same_struct_def upd_node_def)

lemma eflag_set_flag:
  assumes "same_struct h h0" "i < ALPHABET_SIZE"
  shows "eflag (upd_node n (\<lambda>nd. nd\<lparr>child_is_terminal :=
            (child_is_terminal nd)[i := b]\<rparr>) h) a j =
         (if a = n \<and> j = i then b else eflag h a j)"
  using assms by (auto simp: same_struct_def upd_node_def eflag_def)

lemma move_run_correct:
  assumes inv: "trie_inv h0 root K P T"
  shows "n \<in> {root..<brk h0} \<Longrightarrow> same_struct h h0 \<Longrightarrow>
     \<exists>h'. trie_move_eow_run (Call n) h = Some h' \<and> same_struct h' h0 \<and> only_moves h0 h h' \<and>
          (\<forall>a\<in>subtree h0 root K n. \<forall>j<ALPHABET_SIZE. edge_done h0 h' a j)"
proof (induction "brk h0 - n" arbitrary: n h rule: less_induct)
  case less
  note n = less.prems(1)
  have loop: "\<exists>h'. trie_move_eow_run (Loop n i) h1 = Some h' \<and> same_struct h' h0 \<and>
          only_moves h0 h1 h' \<and>
          (\<forall>j. i \<le> j \<and> j < ALPHABET_SIZE \<longrightarrow> edge_done h0 h' n j \<and>
             (child h0 n j \<noteq> 0 \<longrightarrow>
                (\<forall>a\<in>subtree h0 root K (child h0 n j). \<forall>l<ALPHABET_SIZE. edge_done h0 h' a l)))"
    if "i \<le> ALPHABET_SIZE" "same_struct h1 h0" for i h1
    using that
  proof (induction "ALPHABET_SIZE - i" arbitrary: i h1)
    case 0
    then have "i = ALPHABET_SIZE" by simp
    then show ?case using 0 by (auto simp: move_Loop only_moves_refl)
  next
    case (Suc d)
    then have i: "i < ALPHABET_SIZE" by simp
    have d: "d = ALPHABET_SIZE - Suc i" "Suc i \<le> ALPHABET_SIZE" using Suc(2) i by auto
    show ?case
    proof (cases "child h0 n i = 0")
      case True
      obtain h' where h': "trie_move_eow_run (Loop n (Suc i)) h1 = Some h'"
        "same_struct h' h0" "only_moves h0 h1 h'"
        "\<forall>j. Suc i \<le> j \<and> j < ALPHABET_SIZE \<longrightarrow> edge_done h0 h' n j \<and>
             (child h0 n j \<noteq> 0 \<longrightarrow>
                (\<forall>a\<in>subtree h0 root K (child h0 n j). \<forall>l<ALPHABET_SIZE. edge_done h0 h' a l))"
        using Suc(1)[OF d Suc(4)] by blast
      have run: "trie_move_eow_run (Loop n i) h1 = Some h'"
        using h'(1) True i same_struct_child[OF Suc(4)] by (simp add: move_Loop)
      have "edge_done h0 h' n j \<and>
             (child h0 n j \<noteq> 0 \<longrightarrow>
                (\<forall>a\<in>subtree h0 root K (child h0 n j). \<forall>l<ALPHABET_SIZE. edge_done h0 h' a l))"
        if "i \<le> j \<and> j < ALPHABET_SIZE" for j
      proof (cases "j = i")
        case True
        then show ?thesis using \<open>child h0 n i = 0\<close> by (simp add: edge_done_def)
      next
        case False
        then have "Suc i \<le> j \<and> j < ALPHABET_SIZE" using that by simp
        then show ?thesis using h'(4) by blast
      qed
      then show ?thesis using run h'(2,3) by blast
    next
      case False
      let ?c = "child h0 n i"
      let ?ha = "upd_node n (\<lambda>nd. nd\<lparr>child_is_terminal :=
                    (child_is_terminal nd)[i := is_end_of_word (cells h1 ?c)]\<rparr>) h1"
      have eow: "is_end_of_word (cells h1 ?c) = is_end_of_word (cells h0 ?c)"
        using Suc(4) by (simp add: same_struct_def)
      have sa: "same_struct ?ha h0" using Suc(4) by (rule same_struct_set_flag)
      have fa: "eflag ?ha a j = (if a = n \<and> j = i then is_end_of_word (cells h0 ?c) else eflag h1 a j)"
        for a j using eflag_set_flag[OF Suc(4) i] eow by simp
      have ma: "only_moves h0 h1 ?ha"
        unfolding only_moves_def using fa False by simp
      have da: "edge_done h0 ?ha n i"
        unfolding edge_done_def using fa by simp
      have c: "?c \<in> {root..<brk h0}" "n < ?c" "?c < brk h0"
        using trie_child[OF inv n i False] by auto
      then have "brk h0 - ?c < brk h0 - n" by simp
      from less.hyps[OF this c(1) sa]
      obtain hb where hb: "trie_move_eow_run (Call ?c) ?ha = Some hb" "same_struct hb h0"
        "only_moves h0 ?ha hb"
        "\<forall>a\<in>subtree h0 root K ?c. \<forall>j<ALPHABET_SIZE. edge_done h0 hb a j"
        by blast
      obtain h' where h': "trie_move_eow_run (Loop n (Suc i)) hb = Some h'"
        "same_struct h' h0" "only_moves h0 hb h'"
        "\<forall>j. Suc i \<le> j \<and> j < ALPHABET_SIZE \<longrightarrow> edge_done h0 h' n j \<and>
             (child h0 n j \<noteq> 0 \<longrightarrow>
                (\<forall>a\<in>subtree h0 root K (child h0 n j). \<forall>l<ALPHABET_SIZE. edge_done h0 h' a l))"
        using Suc(1)[OF d hb(2)] by blast
      have run: "trie_move_eow_run (Loop n i) h1 = Some h'"
        using h'(1) hb(1) False i same_struct_child[OF Suc(4)] by (simp add: move_Loop)
      have m: "only_moves h0 h1 h'" "only_moves h0 ?ha h'"
        using ma hb(3) h'(3) only_moves_trans by blast+
      have "edge_done h0 h' n j \<and>
             (child h0 n j \<noteq> 0 \<longrightarrow>
                (\<forall>a\<in>subtree h0 root K (child h0 n j). \<forall>l<ALPHABET_SIZE. edge_done h0 h' a l))"
        if "i \<le> j \<and> j < ALPHABET_SIZE" for j
      proof (cases "j = i")
        case True
        have "edge_done h0 h' n i" using edge_done_mono[OF m(2) i da] .
        moreover have "\<forall>a\<in>subtree h0 root K ?c. \<forall>l<ALPHABET_SIZE. edge_done h0 h' a l"
          using hb(4) edge_done_mono[OF h'(3)] by blast
        ultimately show ?thesis using True by simp
      next
        case False
        then have "Suc i \<le> j \<and> j < ALPHABET_SIZE" using that by simp
        then show ?thesis using h'(4) by blast
      qed
      then show ?thesis using run h'(2) m(1) by blast
    qed
  qed
  obtain h' where h': "trie_move_eow_run (Loop n 0) h = Some h'" "same_struct h' h0"
    "only_moves h0 h h'"
    "\<forall>j. 0 \<le> j \<and> j < ALPHABET_SIZE \<longrightarrow> edge_done h0 h' n j \<and>
       (child h0 n j \<noteq> 0 \<longrightarrow>
          (\<forall>a\<in>subtree h0 root K (child h0 n j). \<forall>l<ALPHABET_SIZE. edge_done h0 h' a l))"
    using loop[of 0 h] less.prems(2) by auto
  have "n \<noteq> 0" using n inv unfolding trie_inv_def by auto
  then have run: "trie_move_eow_run (Call n) h = Some h'"
    using h'(1) by (simp add: move_Call)
  have "\<forall>a\<in>subtree h0 root K n. \<forall>j<ALPHABET_SIZE. edge_done h0 h' a j"
    unfolding subtree_unfold[OF inv n] using h'(4) by auto
  then show ?case using run h'(2,3) by blast
qed

lemma fresh_flags_insert:
  "fresh_flags h \<Longrightarrow> trie_insert current w h = Some h' \<Longrightarrow> fresh_flags h'"
proof (induction w arbitrary: current h)
  case Nil
  then show ?case by (auto simp: fresh_flags_def upd_node_def eflag_def split: if_splits)
next
  case (Cons c w)
  have "fresh_flags (set_child current i (brk h) (snd (trie_create_node h)))" for i
    using Cons.prems(1)
    by (auto simp: fresh_flags_def set_child_def upd_node_def trie_create_node_def eflag_def
        zero_node_def)
  then show ?case
    using Cons by (auto simp: Let_def trie_create_node_def split: if_splits)
qed

lemma fresh_flags_insert_all:
  "fresh_flags h \<Longrightarrow> trie_insert_all root ws h = Some h' \<Longrightarrow> fresh_flags h'"
  by (induction ws arbitrary: h) (auto split: option.splits dest: fresh_flags_insert)

lemma fresh_flags_build: "trie_build ws = Some (root, h) \<Longrightarrow> fresh_flags h"
proof -
  have "fresh_flags (snd (trie_create_node empty_heap))"
    by (auto simp: fresh_flags_def trie_create_node_def empty_heap_def eflag_def zero_node_def)
  then show "trie_build ws = Some (root, h) \<Longrightarrow> fresh_flags h"
    by (auto simp: trie_build_def split: prod.splits dest: fresh_flags_insert_all)
qed

lemma same_struct_refl:
  "trie_inv h root K P T \<Longrightarrow> same_struct h h"
  by (simp add: same_struct_def trie_inv_def)

lemma trie_inv_same_struct:
  assumes "trie_inv h0 root K P T" "same_struct h h0"
  shows "trie_inv h root K P T"
proof -
  have l0: "length (child_is_terminal (cells h0 a)) = ALPHABET_SIZE" for a
    using assms(1) unfolding trie_inv_def by simp
  have eq: "child h a j = child h0 a j"
    "length (children (cells h a)) = length (children (cells h0 a))"
    "is_end_of_word (cells h a) = is_end_of_word (cells h0 a)"
    "length (child_is_terminal (cells h a)) = length (child_is_terminal (cells h0 a))"
    "brk h = brk h0" for a j
    using assms(2) l0 by (simp_all add: same_struct_def child_def)
  have "trie_inv h root K P T = trie_inv h0 root K P T"
    unfolding trie_inv_def by (simp only: eq)
  then show ?thesis using assms(1) by simp
qed

lemma subtree_root:
  assumes "trie_inv h root K P T"
  shows "subtree h root K root = {root..<brk h}"
  using assms by (auto simp: subtree_def trie_inv_def)

lemma move_eow_edge_inv:
  assumes inv: "trie_inv h0 root K P T" and fresh: "fresh_flags h0"
  shows "\<exists>h. trie_move_eow_to_edges root h0 = Some h \<and> edge_inv h root K P T"
proof -
  have root: "root \<in> {root..<brk h0}" using inv unfolding trie_inv_def by simp
  obtain h where h: "trie_move_eow_run (Call root) h0 = Some h" "same_struct h h0"
    "only_moves h0 h0 h" "\<forall>a\<in>subtree h0 root K root. \<forall>j<ALPHABET_SIZE. edge_done h0 h a j"
    using move_run_correct[OF inv root same_struct_refl[OF inv]] by blast
  have inv': "trie_inv h root K P T" using trie_inv_same_struct[OF inv h(2)] .
  have vis: "\<forall>a. \<not> visited (cells h a)"
    using fresh h(2) by (simp add: fresh_flags_def same_struct_def)
  have TP: "T \<subseteq> P" using inv unfolding trie_inv_def by simp
  have fl: "eflag h a j \<longleftrightarrow> K a @ [letter j] \<in> T"
    if a: "a \<in> {root..<brk h}" and j: "j < ALPHABET_SIZE" for a j
  proof (cases "child h0 a j = 0")
    case True
    have a0: "a \<in> {root..<brk h0}" using a h(2) by (simp add: same_struct_def)
    have "eflag h a j = eflag h0 a j"
      using h(3) j True unfolding only_moves_def by blast
    then have "\<not> eflag h a j" using fresh j by (simp add: fresh_flags_def)
    moreover have "K a @ [letter j] \<notin> P"
      using trie_child_iff[OF inv a0 j] True by simp
    ultimately show ?thesis using TP by auto
  next
    case False
    have a0: "a \<in> {root..<brk h0}" using a h(2) by (simp add: same_struct_def)
    have "edge_done h0 h a j" using h(4) a0 j subtree_root[OF inv] by blast
    then have "eflag h a j = is_end_of_word (cells h0 (child h0 a j))"
      using False by (simp add: edge_done_def)
    moreover have "is_end_of_word (cells h0 (child h0 a j)) \<longleftrightarrow> K (child h0 a j) \<in> T"
      using inv trie_child(4)[OF inv a0 j False] unfolding trie_inv_def by simp
    ultimately show ?thesis using trie_child(3)[OF inv a0 j False] by simp
  qed
  show ?thesis
    using h(1) inv' vis fl by (auto simp: trie_move_eow_to_edges_def edge_inv_def)
qed

lemma build_edge_inv:
  assumes "list_all lowercase ws"
  shows "\<exists>h0 h K. trie_build ws = Some (1, h0) \<and> trie_move_eow_to_edges 1 h0 = Some h \<and>
           edge_inv h 1 K (insert [] (prefixes (set ws))) (set ws)"
proof -
  obtain h0 K where b: "trie_build ws = Some (1, h0)"
    "trie_inv h0 1 K (insert [] (prefixes (set ws))) (set ws)"
    using trie_build_inv[OF assms] by blast
  show ?thesis
    using b move_eow_edge_inv[OF b(2) fresh_flags_build[OF b(1)]] by blast
qed

section \<open>Right languages of trie nodes\<close>

lemma start_trie: "start_inv h root K T \<Longrightarrow> trie_inv h root K (insert [] (prefixes T)) T"
  by (simp add: start_inv_def edge_inv_def)

lemma start_eflag:
  "start_inv h root K T \<Longrightarrow> a \<in> {root..<brk h} \<Longrightarrow> j < ALPHABET_SIZE \<Longrightarrow>
   eflag h a j \<longleftrightarrow> K a @ [letter j] \<in> T"
  by (simp add: start_inv_def edge_inv_def)

lemma start_child_iff:
  assumes "start_inv h root K T" "a \<in> {root..<brk h}" "j < ALPHABET_SIZE"
  shows "child h a j \<noteq> 0 \<longleftrightarrow> (\<exists>u. K a @ letter j # u \<in> T)"
proof -
  have "child h a j \<noteq> 0 \<longleftrightarrow> K a @ [letter j] \<in> insert [] (prefixes T)"
    using trie_child_iff[OF start_trie[OF assms(1)] assms(2,3)] .
  also have "\<dots> \<longleftrightarrow> (\<exists>u. K a @ letter j # u \<in> T)"
    by (auto simp: prefixes_def)
  finally show ?thesis .
qed

lemma rl_single:
  assumes "start_inv h root K T" "a \<in> {root..<brk h}" "j < ALPHABET_SIZE"
  shows "[letter j] \<in> rl K T a \<longleftrightarrow> eflag h a j"
  using start_eflag[OF assms] by (simp add: rl_def)

lemma rl_child:
  assumes "start_inv h root K T" "a \<in> {root..<brk h}" "j < ALPHABET_SIZE" "child h a j \<noteq> 0"
  shows "rl K T (child h a j) = {u. u \<noteq> [] \<and> letter j # u \<in> rl K T a}"
  using trie_child(3)[OF start_trie[OF assms(1)] assms(2-4)] by (auto simp: rl_def)

lemma rl_nochild:
  assumes "start_inv h root K T" "a \<in> {root..<brk h}" "j < ALPHABET_SIZE" "child h a j = 0"
  shows "letter j # u \<notin> rl K T a"
  using start_child_iff[OF assms(1-3)] assms(4) by (auto simp: rl_def)

lemma rl_lowercase:
  assumes "start_inv h root K T" "w \<in> rl K T a"
  shows "\<exists>j<ALPHABET_SIZE. \<exists>u. w = letter j # u"
proof -
  obtain x u where w: "w = x # u" using assms(2) by (cases w) (auto simp: rl_def)
  have "K a @ x # u \<in> insert [] (prefixes T)"
    using assms(2) w start_trie[OF assms(1)] unfolding trie_inv_def rl_def by auto
  then have "lowercase (K a @ x # u)"
    using start_trie[OF assms(1)] unfolding trie_inv_def by blast
  then show ?thesis using lowercase_letter w by blast
qed

lemma rl_eq_iff:
  assumes s: "start_inv h root K T" and a: "a \<in> {root..<brk h}" and b: "b \<in> {root..<brk h}"
  shows "rl K T a = rl K T b \<longleftrightarrow>
     (\<forall>j<ALPHABET_SIZE. eflag h a j = eflag h b j \<and> (child h a j = 0 \<longleftrightarrow> child h b j = 0) \<and>
        (child h a j \<noteq> 0 \<longrightarrow> rl K T (child h a j) = rl K T (child h b j)))"
    (is "?L \<longleftrightarrow> ?R")
proof
  assume L: ?L
  show ?R
  proof (intro allI impI conjI)
    fix j assume j: "j < ALPHABET_SIZE"
    show "eflag h a j = eflag h b j"
      using rl_single[OF s a j] rl_single[OF s b j] L by simp
    have ch: "child h x j \<noteq> 0 \<longleftrightarrow> (\<exists>u. letter j # u \<in> rl K T x)" if "x \<in> {root..<brk h}" for x
      using start_child_iff[OF s that j] by (auto simp: rl_def)
    show "child h a j = 0 \<longleftrightarrow> child h b j = 0"
      using ch[OF a] ch[OF b] L by metis
    then show "rl K T (child h a j) = rl K T (child h b j)" if "child h a j \<noteq> 0"
      using rl_child[OF s a j] rl_child[OF s b j] L that by simp
  qed
next
  assume R: ?R
  have sub: "rl K T x \<subseteq> rl K T y"
    if x: "x \<in> {root..<brk h}" and y: "y \<in> {root..<brk h}"
      and xy: "\<forall>j<ALPHABET_SIZE. eflag h x j = eflag h y j \<and> (child h x j = 0 \<longleftrightarrow> child h y j = 0) \<and>
        (child h x j \<noteq> 0 \<longrightarrow> rl K T (child h x j) = rl K T (child h y j))" for x y
  proof
    fix w assume w: "w \<in> rl K T x"
    obtain j u where j: "j < ALPHABET_SIZE" and wu: "w = letter j # u"
      using rl_lowercase[OF s w] by blast
    show "w \<in> rl K T y"
    proof (cases "u = []")
      case True
      then show ?thesis
        using w wu rl_single[OF s x j] rl_single[OF s y j] xy j by simp
    next
      case False
      have cx: "child h x j \<noteq> 0" using rl_nochild[OF s x j] w wu by blast
      then have cy: "child h y j \<noteq> 0" using xy j by simp
      have "u \<in> rl K T (child h x j)" using rl_child[OF s x j cx] w wu False by simp
      then have "u \<in> rl K T (child h y j)" using xy j cx by simp
      then show ?thesis using rl_child[OF s y j cy] wu by simp
    qed
  qed
  have R': "\<forall>j<ALPHABET_SIZE. eflag h b j = eflag h a j \<and> (child h b j = 0 \<longleftrightarrow> child h a j = 0) \<and>
        (child h b j \<noteq> 0 \<longrightarrow> rl K T (child h b j) = rl K T (child h a j))"
    using R by auto
  show ?L using sub[OF a b R] sub[OF b a R'] by blast
qed

section \<open>Compression\<close>

lemma compress_Call:
  "dawg_compress_run (Call node) h m =
     (if node = 0 then Some (0, h, m)
      else if visited (cells h node) then Some (node, h, m)
      else Option.bind
             (dawg_compress_run (Loop node 0) (upd_node node (\<lambda>nd. nd\<lparr>visited := True\<rparr>) h) m)
             (\<lambda>(_, h1, m1).
                case hashmap_find_or_insert m1 node h1 of (r, m2) \<Rightarrow> Some (r, h1, m2)))"
  by (subst dawg_compress_run.simps) simp

lemma compress_Loop:
  "dawg_compress_run (Loop node i) h m =
     (if i < ALPHABET_SIZE then
        (if child h node i \<noteq> 0 then
           Option.bind (dawg_compress_run (Call (child h node i)) h m)
             (\<lambda>(r, h1, m1). dawg_compress_run (Loop node (Suc i)) (set_child node i r h1) m1)
         else dawg_compress_run (Loop node (Suc i)) h m)
      else Some (node, h, m))"
  by (subst dawg_compress_run.simps) simp

lemma chain_find_Some:
  "chain_find es nd = Some c \<Longrightarrow>
   \<exists>e\<in>set es. canonical e = c \<and> children_key e = children nd \<and>
      terminal_key e = child_is_terminal nd"
  by (induction es) (auto split: if_splits)

lemma chain_find_None:
  "chain_find es nd = None \<Longrightarrow> e \<in> set es \<Longrightarrow>
   \<not> (children_key e = children nd \<and> terminal_key e = child_is_terminal nd)"
  by (induction es) (auto split: if_splits)

lemma hash_node_sig_cong:
  "children nd = children nd' \<Longrightarrow> child_is_terminal nd = child_is_terminal nd' \<Longrightarrow>
   hash_node_sig nd = hash_node_sig nd'"
  by (simp add: hash_node_sig_def)

lemma rewired_mono: "rewired h1 K T h C n j \<Longrightarrow> C \<subseteq> C' \<Longrightarrow> rewired h1 K T h C' n j"
  by (auto simp: rewired_def)

lemma rewired_cong:
  "rewired h1 K T h C n j \<Longrightarrow> child h' n j = child h n j \<Longrightarrow> eflag h' n j = eflag h n j \<Longrightarrow>
   rewired h1 K T h' C n j"
  by (auto simp: rewired_def)

lemma rewired_cells:
  "rewired h1 K T h C n j \<Longrightarrow> cells h' n = cells h n \<Longrightarrow> rewired h1 K T h' C n j"
  by (auto simp: rewired_def child_def eflag_def)

text \<open>Two rewired nodes have the same right language iff they have the same signature.\<close>

lemma rewired_sig:
  assumes s: "start_inv h1 root K T"
    and x: "x \<in> {root..<brk h1}" and y: "y \<in> {root..<brk h1}"
    and rx: "\<forall>j<ALPHABET_SIZE. rewired h1 K T h C x j"
    and ry: "\<forall>j<ALPHABET_SIZE. rewired h1 K T h C y j"
    and inj: "\<forall>c\<in>C. \<forall>c'\<in>C. rl K T c = rl K T c' \<longrightarrow> c = c'"
    and len: "\<forall>a. length (children (cells h a)) = ALPHABET_SIZE \<and>
          length (child_is_terminal (cells h a)) = ALPHABET_SIZE"
  shows "rl K T x = rl K T y \<longleftrightarrow>
     children (cells h x) = children (cells h y) \<and>
     child_is_terminal (cells h x) = child_is_terminal (cells h y)"
    (is "?L \<longleftrightarrow> ?R")
proof
  assume ?R
  then have eq: "child h x j = child h y j" "eflag h x j = eflag h y j" for j
    by (simp_all add: child_def eflag_def)
  have "eflag h1 x j = eflag h1 y j \<and> (child h1 x j = 0 \<longleftrightarrow> child h1 y j = 0) \<and>
        (child h1 x j \<noteq> 0 \<longrightarrow> rl K T (child h1 x j) = rl K T (child h1 y j))"
    if "j < ALPHABET_SIZE" for j
    using rx ry that eq[of j] unfolding rewired_def by metis
  then show ?L using rl_eq_iff[OF s x y] by blast
next
  assume ?L
  then have h1f: "eflag h1 x j = eflag h1 y j \<and> (child h1 x j = 0 \<longleftrightarrow> child h1 y j = 0) \<and>
        (child h1 x j \<noteq> 0 \<longrightarrow> rl K T (child h1 x j) = rl K T (child h1 y j))"
    if "j < ALPHABET_SIZE" for j
    using rl_eq_iff[OF s x y] that by blast
  have c: "child h x j = child h y j" and f: "eflag h x j = eflag h y j"
    if j: "j < ALPHABET_SIZE" for j
  proof -
    have a: "rewired h1 K T h C x j" "rewired h1 K T h C y j" using rx ry j by auto
    show "eflag h x j = eflag h y j"
      using a h1f[OF j] by (simp add: rewired_def)
    show "child h x j = child h y j"
    proof (cases "child h1 x j = 0")
      case True
      then show ?thesis using a h1f[OF j] by (simp add: rewired_def)
    next
      case False
      then have "child h x j \<in> C" "child h y j \<in> C"
        "rl K T (child h x j) = rl K T (child h y j)"
        using a h1f[OF j] unfolding rewired_def by auto
      then show ?thesis using inj by blast
    qed
  qed
  have "children (cells h x) = children (cells h y)"
    using len c by (intro nth_equalityI) (auto simp: child_def)
  moreover have "child_is_terminal (cells h x) = child_is_terminal (cells h y)"
    using len f by (intro nth_equalityI) (auto simp: eflag_def)
  ultimately show ?R by simp
qed

lemma cinv_frame:
  assumes "cinv h1 root K T h m D" "\<forall>a\<in>D. cells h' a = cells h a" "brk h' = brk h"
    "\<forall>a. length (children (cells h' a)) = ALPHABET_SIZE \<and>
          length (child_is_terminal (cells h' a)) = ALPHABET_SIZE"
  shows "cinv h1 root K T h' m D"
proof -
  have CD: "canon_set m \<subseteq> D" using assms(1) by (simp add: cinv_def)
  have eq: "cells h' c = cells h c" if "c \<in> canon_set m" for c
    using that CD assms(2) by blast
  have t: "table_ok h' m"
  proof -
    have "canonical e \<in> canon_set m" if "e \<in> set (m b)" for e b
      using that by (auto simp: canon_set_def)
    then show ?thesis
      using assms(1) eq unfolding cinv_def table_ok_def by simp
  qed
  have r: "\<forall>c\<in>canon_set m. \<forall>j<ALPHABET_SIZE. rewired h1 K T h' (canon_set m) c j"
    using assms(1) eq rewired_cells unfolding cinv_def by blast
  show ?thesis
    using assms t r unfolding cinv_def by simp
qed

lemma canon_set_insert:
  "canon_set (m(b := e # m b)) = insert (canonical e) (canon_set m)"
  by (auto simp: canon_set_def split: if_splits)

lemma canon_set_entry: "e \<in> set (m b) \<Longrightarrow> canonical e \<in> canon_set m"
  by (auto simp: canon_set_def)

lemma find_or_insert_cinv:
  assumes s: "start_inv h1 root K T" and ci: "cinv h1 root K T h m D"
    and n: "n \<in> {root<..<brk h1}" "n \<notin> D"
    and rn: "\<forall>j<ALPHABET_SIZE. rewired h1 K T h (canon_set m) n j"
    and res: "hashmap_find_or_insert m n h = (r, m')"
  shows "cinv h1 root K T h m' (insert n D) \<and> r \<in> canon_set m' \<and> rl K T r = rl K T n \<and>
         canon_set m \<subseteq> canon_set m'"
proof -
  let ?nd = "cells h n"
  let ?hv = "hash_node_sig ?nd"
  let ?C = "canon_set m"
  have D: "D \<subseteq> {root<..<brk h1}" and CD: "?C \<subseteq> D" and tab: "table_ok h m"
    and rw: "\<forall>c\<in>?C. \<forall>j<ALPHABET_SIZE. rewired h1 K T h ?C c j"
    and inj: "\<forall>c\<in>?C. \<forall>c'\<in>?C. rl K T c = rl K T c' \<longrightarrow> c = c'"
    and rep: "\<forall>a\<in>D. \<exists>c\<in>?C. rl K T c = rl K T a"
    and len: "\<forall>a. length (children (cells h a)) = ALPHABET_SIZE \<and>
          length (child_is_terminal (cells h a)) = ALPHABET_SIZE"
    and brk: "brk h = brk h1"
    using ci unfolding cinv_def by auto
  have nS: "n \<in> {root..<brk h1}" using n by auto
  have sig: "rl K T c = rl K T n \<longleftrightarrow>
     children (cells h c) = children ?nd \<and> child_is_terminal (cells h c) = child_is_terminal ?nd"
    if c: "c \<in> ?C" for c
  proof -
    have cS: "c \<in> {root..<brk h1}" using c CD D by auto
    show ?thesis
      using rewired_sig[OF s cS nS _ rn inj len] rw c by blast
  qed
  show ?thesis
  proof (cases "chain_find (m ?hv) ?nd")
    case (Some c)
    then have r: "r = c" "m' = m" using res by (auto simp: hashmap_find_or_insert_def)
    obtain e where e: "e \<in> set (m ?hv)" "canonical e = c" "children_key e = children ?nd"
      "terminal_key e = child_is_terminal ?nd"
      using chain_find_Some[OF Some] by blast
    have cC: "c \<in> ?C" using e canon_set_entry by blast
    have "children (cells h c) = children ?nd \<and> child_is_terminal (cells h c) = child_is_terminal ?nd"
      using tab e unfolding table_ok_def by metis
    then have rl: "rl K T c = rl K T n" using sig[OF cC] by simp
    have "cinv h1 root K T h m (insert n D)"
      unfolding cinv_def using brk D CD len tab rw inj rep n cC rl by auto
    then show ?thesis using r cC rl by simp
  next
    case None
    let ?e = "\<lparr>canonical = n, children_key = children ?nd, terminal_key = child_is_terminal ?nd\<rparr>"
    have r: "r = n" "m' = m(?hv := ?e # m ?hv)"
      using res None by (auto simp: hashmap_find_or_insert_def Let_def)
    have C': "canon_set m' = insert n ?C" using r(2) canon_set_insert[of m ?hv ?e] by simp
    have new: "rl K T c \<noteq> rl K T n" if c: "c \<in> ?C" for c
    proof
      assume "rl K T c = rl K T n"
      then have eq: "children (cells h c) = children ?nd"
        "child_is_terminal (cells h c) = child_is_terminal ?nd"
        using sig[OF c] by auto
      obtain b e where e: "e \<in> set (m b)" "canonical e = c"
        using c by (auto simp: canon_set_def)
      have k: "children_key e = children ?nd" "terminal_key e = child_is_terminal ?nd"
        "hash_node_sig (cells h c) = b"
        using tab e eq unfolding table_ok_def by auto
      have "b = ?hv" using k(3) hash_node_sig_cong[OF eq] by simp
      then show False using chain_find_None[OF None, of e] e(1) k(1,2) by simp
    qed
    have t': "table_ok h m'"
      using tab unfolding table_ok_def r(2) by auto
    have rw': "\<forall>c\<in>canon_set m'. \<forall>j<ALPHABET_SIZE. rewired h1 K T h (canon_set m') c j"
      unfolding C' using rw rn rewired_mono[where C = ?C and C' = "insert n ?C"] by blast
    have inj': "\<forall>c\<in>canon_set m'. \<forall>c'\<in>canon_set m'. rl K T c = rl K T c' \<longrightarrow> c = c'"
      unfolding C' using inj new by (metis insert_iff)
    have rep': "\<forall>a\<in>insert n D. \<exists>c\<in>canon_set m'. rl K T c = rl K T a"
      unfolding C' using rep by auto
    have "cinv h1 root K T h m' (insert n D)"
      unfolding cinv_def using brk D CD len t' rw' inj' rep' n C' by auto
    then show ?thesis using r C' by auto
  qed
qed

lemma subtree_self: "n \<in> {root..<brk h} \<Longrightarrow> n \<in> subtree h root K n"
  by (simp add: subtree_def)

lemma subtree_alloc: "subtree h root K n \<subseteq> {root..<brk h}"
  by (auto simp: subtree_def)

lemma subtree_child_props:
  assumes inv: "trie_inv h root K P T" and n: "n \<in> {root..<brk h}"
    and j: "j < ALPHABET_SIZE" and c: "child h n j \<noteq> 0"
  shows "n \<notin> subtree h root K (child h n j)"
    and "subtree h root K (child h n j) \<subseteq> {root<..<brk h}"
    and "j' < ALPHABET_SIZE \<Longrightarrow> child h n j' \<noteq> 0 \<Longrightarrow> j' \<noteq> j \<Longrightarrow>
         subtree h root K (child h n j) \<inter> subtree h root K (child h n j') = {}"
proof -
  have k: "K (child h n j) = K n @ [letter j]" using trie_child(3)[OF inv n j c] .
  show "n \<notin> subtree h root K (child h n j)"
    using k by (auto simp: subtree_def)
  have root: "K root = []" "inj_on K {root..<brk h}" "root \<in> {root..<brk h}"
    using inv unfolding trie_inv_def by auto
  show "subtree h root K (child h n j) \<subseteq> {root<..<brk h}"
  proof
    fix a assume a: "a \<in> subtree h root K (child h n j)"
    then have "K a \<noteq> []" "a \<in> {root..<brk h}" using k by (auto simp: subtree_def)
    then have "a \<noteq> root" using root by auto
    then show "a \<in> {root<..<brk h}" using \<open>a \<in> {root..<brk h}\<close> by auto
  qed
  show "subtree h root K (child h n j) \<inter> subtree h root K (child h n j') = {}"
    if j': "j' < ALPHABET_SIZE" and c': "child h n j' \<noteq> 0" and ne: "j' \<noteq> j"
  proof -
    have k': "K (child h n j') = K n @ [letter j']" using trie_child(3)[OF inv n j' c'] .
    have "letter j \<noteq> letter j'" using letter_inj[OF j j'] ne by auto
    then show ?thesis using k k' by (auto simp: subtree_def)
  qed
qed

lemma below_end: "below h1 root K n ALPHABET_SIZE = {}"
  by (auto simp: below_def)

lemma below_step:
  assumes "i < ALPHABET_SIZE"
  shows "below h1 root K n i =
     (if child h1 n i \<noteq> 0 then subtree h1 root K (child h1 n i) \<union> below h1 root K n (Suc i)
      else below h1 root K n (Suc i))"
proof -
  have "{j. i \<le> j \<and> j < ALPHABET_SIZE \<and> child h1 n j \<noteq> 0} =
        (if child h1 n i \<noteq> 0 then insert i {j. Suc i \<le> j \<and> j < ALPHABET_SIZE \<and> child h1 n j \<noteq> 0}
         else {j. Suc i \<le> j \<and> j < ALPHABET_SIZE \<and> child h1 n j \<noteq> 0})"
    using assms by (auto simp: Suc_le_eq le_less)
  then show ?thesis unfolding below_def by (simp split: if_splits)
qed

lemma subtree_below:
  assumes "trie_inv h root K P T" "n \<in> {root..<brk h}"
  shows "subtree h root K n = insert n (below h root K n 0)"
  using subtree_unfold[OF assms] by (simp add: below_def)

lemma below_sub: "i \<le> i' \<Longrightarrow> below h1 root K n i' \<subseteq> below h1 root K n i"
  unfolding below_def by (rule UN_mono) auto

lemma below_props:
  assumes inv: "trie_inv h root K P T" and n: "n \<in> {root..<brk h}"
  shows "n \<notin> below h root K n i" "below h root K n i \<subseteq> {root<..<brk h}"
    and "i < ALPHABET_SIZE \<Longrightarrow> child h n i \<noteq> 0 \<Longrightarrow>
         subtree h root K (child h n i) \<inter> below h root K n (Suc i) = {}"
proof -
  show "n \<notin> below h root K n i"
    using subtree_child_props(1)[OF inv n] by (auto simp: below_def)
  show "below h root K n i \<subseteq> {root<..<brk h}"
    using subtree_child_props(2)[OF inv n] by (fastforce simp: below_def)
  show "subtree h root K (child h n i) \<inter> below h root K n (Suc i) = {}"
    if i: "i < ALPHABET_SIZE" and c: "child h n i \<noteq> 0"
  proof -
    have "subtree h root K (child h n i) \<inter> subtree h root K (child h n j) = {}"
      if "Suc i \<le> j" "j < ALPHABET_SIZE" "child h n j \<noteq> 0" for j
      using subtree_child_props(3)[OF inv n i c, of j] that by auto
    then show ?thesis unfolding below_def by blast
  qed
qed

lemma cinv_lengths:
  "cinv h1 root K T h m D \<Longrightarrow> length (children (cells h a)) = ALPHABET_SIZE"
  "cinv h1 root K T h m D \<Longrightarrow> length (child_is_terminal (cells h a)) = ALPHABET_SIZE"
  by (simp_all add: cinv_def)

lemma cinv_set_child:
  assumes "cinv h1 root K T h m D" "n \<notin> D"
  shows "cinv h1 root K T (set_child n i r h) m D"
proof (rule cinv_frame[OF assms(1)])
  show "\<forall>a\<in>D. cells (set_child n i r h) a = cells h a"
    using assms(2) by (auto simp: set_child_def upd_node_def)
  show "brk (set_child n i r h) = brk h"
    by (simp add: set_child_def upd_node_def)
  show "\<forall>a. length (children (cells (set_child n i r h) a)) = ALPHABET_SIZE \<and>
          length (child_is_terminal (cells (set_child n i r h) a)) = ALPHABET_SIZE"
    using cinv_lengths[OF assms(1)] by (simp add: set_child_def upd_node_def)
qed

lemma cinv_set_visited:
  assumes "cinv h1 root K T h m D" "n \<notin> D"
  shows "cinv h1 root K T (upd_node n (\<lambda>nd. nd\<lparr>visited := True\<rparr>) h) m D"
proof (rule cinv_frame[OF assms(1)])
  show "\<forall>a\<in>D. cells (upd_node n (\<lambda>nd. nd\<lparr>visited := True\<rparr>) h) a = cells h a"
    using assms(2) by (auto simp: upd_node_def)
  show "brk (upd_node n (\<lambda>nd. nd\<lparr>visited := True\<rparr>) h) = brk h"
    by (simp add: upd_node_def)
  show "\<forall>a. length (children (cells (upd_node n (\<lambda>nd. nd\<lparr>visited := True\<rparr>) h) a)) = ALPHABET_SIZE \<and>
          length (child_is_terminal (cells (upd_node n (\<lambda>nd. nd\<lparr>visited := True\<rparr>) h) a)) = ALPHABET_SIZE"
    using cinv_lengths[OF assms(1)] by (simp add: upd_node_def)
qed

lemma child_set_child:
  "length (children (cells h n)) = ALPHABET_SIZE \<Longrightarrow> i < ALPHABET_SIZE \<Longrightarrow>
   child (set_child n i r h) a j = (if a = n \<and> j = i then r else child h a j)"
  by (auto simp: set_child_def upd_node_def child_def)

lemma eflag_set_child: "eflag (set_child n i r h) a j = eflag h a j"
  by (auto simp: set_child_def upd_node_def eflag_def)

lemma cells_set_child: "a \<noteq> n \<Longrightarrow> cells (set_child n i r h) a = cells h a"
  by (simp add: set_child_def upd_node_def)

lemma same_fields_set_child:
  "same_fields (cells (set_child n i r h) a) (cells h a)"
  by (simp add: same_fields_def set_child_def upd_node_def)

lemma same_fields_trans: "same_fields a b \<Longrightarrow> same_fields b c \<Longrightarrow> same_fields a c"
  by (simp add: same_fields_def)

lemma same_fields_refl: "same_fields a a"
  by (simp add: same_fields_def)

lemma compress_loop_correct:
  assumes s: "start_inv h1 root K T" and n: "n \<in> {root..<brk h1}"
    and kids: "\<forall>j<ALPHABET_SIZE. child h1 n j \<noteq> 0 \<longrightarrow> call_ok h1 root K T (child h1 n j)"
  shows "i \<le> ALPHABET_SIZE \<Longrightarrow> cinv h1 root K T h m D \<Longrightarrow> n \<notin> D \<Longrightarrow>
     below h1 root K n i \<inter> D = {} \<Longrightarrow>
     \<forall>a\<in>below h1 root K n i. cells h a = cells h1 a \<Longrightarrow>
     \<forall>j. i \<le> j \<and> j < ALPHABET_SIZE \<longrightarrow> child h n j = child h1 n j \<Longrightarrow>
     \<forall>j<ALPHABET_SIZE. eflag h n j = eflag h1 n j \<Longrightarrow>
     \<forall>j<i. rewired h1 K T h (canon_set m) n j \<Longrightarrow>
     \<exists>h' m'. dawg_compress_run (Loop n i) h m = Some (n, h', m') \<and>
        cinv h1 root K T h' m' (D \<union> below h1 root K n i) \<and> canon_set m \<subseteq> canon_set m' \<and>
        (\<forall>a. a \<noteq> n \<and> a \<notin> below h1 root K n i \<longrightarrow> cells h' a = cells h a) \<and>
        (\<forall>j<ALPHABET_SIZE. rewired h1 K T h' (canon_set m') n j) \<and>
        same_fields (cells h' n) (cells h n)"
proof (induction "ALPHABET_SIZE - i" arbitrary: i h m D)
  case 0
  then have i: "i = ALPHABET_SIZE" by simp
  show ?case
    using 0(3,9) by (simp add: i compress_Loop below_end same_fields_refl)
next
  case (Suc d)
  note inv = start_trie[OF s]
  have i: "i < ALPHABET_SIZE" using Suc(2) by simp
  have d: "d = ALPHABET_SIZE - Suc i" "Suc i \<le> ALPHABET_SIZE" using Suc(2) i by auto
  note ci = Suc(4) and nD = Suc(5) and disj = Suc(6) and untouched = Suc(7)
    and kidsame = Suc(8) and flags = Suc(9) and rw = Suc(10)
  have chi: "child h n i = child h1 n i" using kidsame i by simp
  show ?case
  proof (cases "child h1 n i = 0")
    case True
    have bel: "below h1 root K n i = below h1 root K n (Suc i)"
      using below_step[OF i] True by simp
    have rwi: "rewired h1 K T h (canon_set m) n i"
      using True chi flags i by (simp add: rewired_def)
    have rw': "\<forall>j<Suc i. rewired h1 K T h (canon_set m) n j"
      using rw rwi by (auto simp: less_Suc_eq)
    have ks: "\<forall>j. Suc i \<le> j \<and> j < ALPHABET_SIZE \<longrightarrow> child h n j = child h1 n j"
      using kidsame by auto
    obtain h' m' where r: "dawg_compress_run (Loop n (Suc i)) h m = Some (n, h', m')"
      "cinv h1 root K T h' m' (D \<union> below h1 root K n (Suc i))" "canon_set m \<subseteq> canon_set m'"
      "\<forall>a. a \<noteq> n \<and> a \<notin> below h1 root K n (Suc i) \<longrightarrow> cells h' a = cells h a"
      "\<forall>j<ALPHABET_SIZE. rewired h1 K T h' (canon_set m') n j"
      "same_fields (cells h' n) (cells h n)"
      using Suc(1)[OF d ci nD disj[unfolded bel] untouched[unfolded bel] ks flags rw'] by blast
    have "dawg_compress_run (Loop n i) h m = Some (n, h', m')"
      using r(1) i chi True by (simp add: compress_Loop)
    then show ?thesis using r(2-6) bel by auto
  next
    case False
    let ?c = "child h1 n i"
    let ?Sc = "subtree h1 root K ?c"
    have bel: "below h1 root K n i = ?Sc \<union> below h1 root K n (Suc i)"
      using below_step[OF i] False by simp
    have ok: "call_ok h1 root K T ?c" using kids i False by simp
    have pre1: "?Sc \<inter> D = {}" "\<forall>a\<in>?Sc. cells h a = cells h1 a"
      using disj untouched bel by auto
    obtain r ha ma where a: "dawg_compress_run (Call ?c) h m = Some (r, ha, ma)"
      "cinv h1 root K T ha ma (D \<union> ?Sc)" "r \<in> canon_set ma" "rl K T r = rl K T ?c"
      "canon_set m \<subseteq> canon_set ma" "\<forall>a. a \<notin> ?Sc \<longrightarrow> cells ha a = cells h a"
      using ok ci pre1 unfolding call_ok_def by blast
    let ?hb = "set_child n i r ha"
    let ?Db = "D \<union> ?Sc"
    have nSc: "n \<notin> ?Sc" using subtree_child_props(1)[OF inv n i False] .
    have nDb: "n \<notin> ?Db" using nD nSc by simp
    have cn: "cells ha n = cells h n" using a(6) nSc by simp
    have lenn: "length (children (cells ha n)) = ALPHABET_SIZE" using cinv_lengths(1)[OF a(2)] .
    have cib: "cinv h1 root K T ?hb ma ?Db" using cinv_set_child[OF a(2) nDb] .
    have sd: "?Sc \<inter> below h1 root K n (Suc i) = {}"
      using below_props(3)[OF inv n i False] .
    have disjb: "below h1 root K n (Suc i) \<inter> ?Db = {}"
      using disj bel sd by auto
    have nbel: "n \<notin> below h1 root K n (Suc i)" using below_props(1)[OF inv n] .
    have untb: "\<forall>a\<in>below h1 root K n (Suc i). cells ?hb a = cells h1 a"
    proof
      fix a assume ab: "a \<in> below h1 root K n (Suc i)"
      then have "a \<noteq> n" "a \<notin> ?Sc" using nbel sd by auto
      then have "cells ?hb a = cells h a" using a(6) by (simp add: cells_set_child)
      then show "cells ?hb a = cells h1 a" using untouched ab bel by simp
    qed
    have chb: "child ?hb n j = (if j = i then r else child h n j)" for j
      using child_set_child[OF lenn i, of r n j] cn by (simp add: child_def)
    have ksb: "\<forall>j. Suc i \<le> j \<and> j < ALPHABET_SIZE \<longrightarrow> child ?hb n j = child h1 n j"
      using chb kidsame by auto
    have efa: "eflag ha n j = eflag h n j" for j
      using cn by (simp add: eflag_def)
    have efb: "eflag ?hb n j = eflag h n j" for j
      using efa by (simp add: eflag_set_child)
    have flb: "\<forall>j<ALPHABET_SIZE. eflag ?hb n j = eflag h1 n j"
      using flags efb by simp
    have rD: "r \<in> ?Db" using a(2,3) unfolding cinv_def by blast
    have r0: "r \<noteq> 0" using rD a(2) unfolding cinv_def by auto
    have rwb: "\<forall>j<Suc i. rewired h1 K T ?hb (canon_set ma) n j"
    proof (intro allI impI)
      fix j assume j: "j < Suc i"
      show "rewired h1 K T ?hb (canon_set ma) n j"
      proof (cases "j = i")
        case True
        then show ?thesis
          using chb[of i] r0 False a(3,4) flb i by (simp add: rewired_def)
      next
        case False
        then have "j < i" using j by simp
        then have "rewired h1 K T h (canon_set ma) n j"
          using rw rewired_mono[OF _ a(5)] by blast
        moreover have "child ?hb n j = child h n j" using chb False by simp
        moreover have "eflag ?hb n j = eflag h n j"
          by (rule efb)
        ultimately show ?thesis by (rule rewired_cong)
      qed
    qed
    obtain h' m' where r: "dawg_compress_run (Loop n (Suc i)) ?hb ma = Some (n, h', m')"
      "cinv h1 root K T h' m' (?Db \<union> below h1 root K n (Suc i))" "canon_set ma \<subseteq> canon_set m'"
      "\<forall>a. a \<noteq> n \<and> a \<notin> below h1 root K n (Suc i) \<longrightarrow> cells h' a = cells ?hb a"
      "\<forall>j<ALPHABET_SIZE. rewired h1 K T h' (canon_set m') n j"
      "same_fields (cells h' n) (cells ?hb n)"
      using Suc(1)[OF d cib nDb disjb untb ksb flb rwb] by blast
    have sf: "same_fields (cells h' n) (cells h n)"
      using same_fields_trans[OF r(6) same_fields_set_child[of n i r ha n]] cn by simp
    have run: "dawg_compress_run (Loop n i) h m = Some (n, h', m')"
      using r(1) a(1) i chi False by (simp add: compress_Loop)
    have Deq: "?Db \<union> below h1 root K n (Suc i) = D \<union> below h1 root K n i"
      using bel by auto
    have frame: "\<forall>a. a \<noteq> n \<and> a \<notin> below h1 root K n i \<longrightarrow> cells h' a = cells h a"
    proof (intro allI impI)
      fix a assume "a \<noteq> n \<and> a \<notin> below h1 root K n i"
      then have "a \<noteq> n" "a \<notin> ?Sc" "a \<notin> below h1 root K n (Suc i)" using bel by auto
      then show "cells h' a = cells h a"
        using r(4) a(6) by (simp add: cells_set_child)
    qed
    show ?thesis
      using run r(2,5) Deq frame a(5) r(3) sf by auto
  qed
qed

lemma start_unvisited: "start_inv h1 root K T \<Longrightarrow> \<not> visited (cells h1 a)"
  by (simp add: start_inv_def edge_inv_def)

lemma compress_call_correct:
  assumes s: "start_inv h1 root K T"
  shows "n \<in> {root<..<brk h1} \<Longrightarrow> call_ok h1 root K T n"
proof (induction "brk h1 - n" arbitrary: n rule: less_induct)
  case less
  note inv = start_trie[OF s]
  have n: "n \<in> {root..<brk h1}" using less.prems by auto
  have kids: "\<forall>j<ALPHABET_SIZE. child h1 n j \<noteq> 0 \<longrightarrow> call_ok h1 root K T (child h1 n j)"
  proof (intro allI impI)
    fix j assume j: "j < ALPHABET_SIZE" and c: "child h1 n j \<noteq> 0"
    have "n < child h1 n j" "child h1 n j < brk h1"
      using trie_child(1,2)[OF inv n j c] by auto
    then show "call_ok h1 root K T (child h1 n j)"
      using less.hyps[of "child h1 n j"] less.prems by auto
  qed
  show ?case
    unfolding call_ok_def
  proof (intro allI impI)
    fix h m D
    assume ci: "cinv h1 root K T h m D" and disj: "subtree h1 root K n \<inter> D = {}"
      and unt: "\<forall>a\<in>subtree h1 root K n. cells h a = cells h1 a"
    let ?hv = "upd_node n (\<lambda>nd. nd\<lparr>visited := True\<rparr>) h"
    have sub: "subtree h1 root K n = insert n (below h1 root K n 0)"
      using subtree_below[OF inv n] .
    have nD: "n \<notin> D" using disj sub by auto
    have cn: "cells h n = cells h1 n" using unt sub by simp
    have n0: "n \<noteq> 0" using less.prems by auto
    have nv: "\<not> visited (cells h n)" using cn start_unvisited[OF s] by simp
    have civ: "cinv h1 root K T ?hv m D" using cinv_set_visited[OF ci nD] .
    have nb: "n \<notin> below h1 root K n 0" using below_props(1)[OF inv n] .
    have p1: "below h1 root K n 0 \<inter> D = {}" using disj sub by auto
    have p2: "\<forall>a\<in>below h1 root K n 0. cells ?hv a = cells h1 a"
      using unt sub nb by (auto simp: upd_node_def)
    have p3: "\<forall>j. 0 \<le> j \<and> j < ALPHABET_SIZE \<longrightarrow> child ?hv n j = child h1 n j"
      using cn by (simp add: upd_node_def child_def)
    have p4: "\<forall>j<ALPHABET_SIZE. eflag ?hv n j = eflag h1 n j"
      using cn by (simp add: upd_node_def eflag_def)
    have p5: "\<forall>j<0. rewired h1 K T ?hv (canon_set m) n j" by simp
    obtain h' m' where l: "dawg_compress_run (Loop n 0) ?hv m = Some (n, h', m')"
      "cinv h1 root K T h' m' (D \<union> below h1 root K n 0)" "canon_set m \<subseteq> canon_set m'"
      "\<forall>a. a \<noteq> n \<and> a \<notin> below h1 root K n 0 \<longrightarrow> cells h' a = cells ?hv a"
      "\<forall>j<ALPHABET_SIZE. rewired h1 K T h' (canon_set m') n j"
      using compress_loop_correct[OF s n kids _ civ nD p1 p2 p3 p4 p5] by auto
    obtain r m2 where f: "hashmap_find_or_insert m' n h' = (r, m2)"
      by (cases "hashmap_find_or_insert m' n h'") auto
    have nD': "n \<notin> D \<union> below h1 root K n 0" using nD nb by simp
    have fi: "cinv h1 root K T h' m2 (insert n (D \<union> below h1 root K n 0))"
      "r \<in> canon_set m2" "rl K T r = rl K T n" "canon_set m' \<subseteq> canon_set m2"
      using find_or_insert_cinv[OF s l(2) less.prems nD' l(5) f] by auto
    have run: "dawg_compress_run (Call n) h m = Some (r, h', m2)"
      using l(1) f n0 nv by (simp add: compress_Call)
    have Deq: "insert n (D \<union> below h1 root K n 0) = D \<union> subtree h1 root K n"
      using sub by auto
    have frame: "\<forall>a. a \<notin> subtree h1 root K n \<longrightarrow> cells h' a = cells h a"
      using l(4) sub by (auto simp: upd_node_def)
    show "\<exists>r h' m'. dawg_compress_run (Call n) h m = Some (r, h', m') \<and>
           cinv h1 root K T h' m' (D \<union> subtree h1 root K n) \<and> r \<in> canon_set m' \<and>
           rl K T r = rl K T n \<and> canon_set m \<subseteq> canon_set m' \<and>
           (\<forall>a. a \<notin> subtree h1 root K n \<longrightarrow> cells h' a = cells h a)"
      using run fi Deq frame l(3) by auto
  qed
qed

lemma canon_set_empty: "canon_set hashmap_create = {}"
  by (simp add: canon_set_def hashmap_create_def)

lemma cinv_initial:
  assumes "start_inv h1 root K T"
  shows "cinv h1 root K T h1 hashmap_create {}"
proof -
  have "\<forall>a. length (children (cells h1 a)) = ALPHABET_SIZE \<and>
          length (child_is_terminal (cells h1 a)) = ALPHABET_SIZE"
    using start_trie[OF assms] unfolding trie_inv_def by simp
  moreover have "table_ok h1 hashmap_create"
    by (simp add: table_ok_def hashmap_create_def)
  ultimately show ?thesis
    using canon_set_empty by (simp add: cinv_def)
qed

text \<open>The state after \<^verbatim>\<open>dawg_compress(root, map)\<close>.\<close>

lemma dawg_compress_correct:
  assumes s: "start_inv h1 root K T"
  shows "\<exists>h m. dawg_compress root h1 hashmap_create = Some (h, m) \<and>
           cinv h1 root K T h m {root<..<brk h1} \<and>
           (\<forall>j<ALPHABET_SIZE. rewired h1 K T h (canon_set m) root j) \<and>
           (\<forall>a. a \<notin> {root..<brk h1} \<longrightarrow> cells h a = cells h1 a) \<and>
           same_fields (cells h root) (cells h1 root)"
proof -
  note inv = start_trie[OF s]
  have root: "root \<in> {root..<brk h1}" using inv unfolding trie_inv_def by simp
  have kids: "\<forall>j<ALPHABET_SIZE. child h1 root j \<noteq> 0 \<longrightarrow> call_ok h1 root K T (child h1 root j)"
  proof (intro allI impI)
    fix j assume j: "j < ALPHABET_SIZE" and c: "child h1 root j \<noteq> 0"
    have "root < child h1 root j" "child h1 root j < brk h1"
      using trie_child(1,2)[OF inv root j c] by auto
    then show "call_ok h1 root K T (child h1 root j)"
      using compress_call_correct[OF s] by simp
  qed
  have sub: "{root..<brk h1} = insert root (below h1 root K root 0)"
    using subtree_below[OF inv root] subtree_root[OF inv] by simp
  have nb: "root \<notin> below h1 root K root 0" using below_props(1)[OF inv root] .
  have bel: "below h1 root K root 0 = {root<..<brk h1}"
    using sub nb below_props(2)[OF inv root, of 0] by auto
  obtain h m where l: "dawg_compress_run (Loop root 0) h1 hashmap_create = Some (root, h, m)"
    "cinv h1 root K T h m ({} \<union> below h1 root K root 0)"
    "\<forall>a. a \<noteq> root \<and> a \<notin> below h1 root K root 0 \<longrightarrow> cells h a = cells h1 a"
    "\<forall>j<ALPHABET_SIZE. rewired h1 K T h (canon_set m) root j"
    "same_fields (cells h root) (cells h1 root)"
    using compress_loop_correct[OF s root kids _ cinv_initial[OF s], of 0] by auto
  have "dawg_compress root h1 hashmap_create = Some (h, m)"
    using l(1) by (simp add: dawg_compress_def)
  moreover have "\<forall>a. a \<notin> {root..<brk h1} \<longrightarrow> cells h a = cells h1 a"
    using l(3) sub by auto
  ultimately show ?thesis using l(2,4,5) bel by auto
qed

section \<open>The compressed graph as an automaton\<close>

lemma lang_graphD:
  assumes "lang_graph h N L" "n \<in> N" "j < ALPHABET_SIZE"
  shows "child h n j \<noteq> 0 \<longleftrightarrow> (\<exists>u. letter j # u \<in> L n)"
    and "child h n j \<noteq> 0 \<Longrightarrow> child h n j \<in> N"
    and "child h n j \<noteq> 0 \<Longrightarrow> L (child h n j) = {u. u \<noteq> [] \<and> letter j # u \<in> L n}"
    and "eflag h n j \<longleftrightarrow> [letter j] \<in> L n"
  using assms unfolding lang_graph_def by blast+

lemma lang_graph_words:
  assumes "lang_graph h N L" "n \<in> N" "w \<in> L n"
  shows "w \<noteq> []" "lowercase w"
  using assms unfolding lang_graph_def by blast+

lemma accepts_lang:
  assumes g: "lang_graph h N L"
  shows "n \<in> N \<Longrightarrow> accepts h n w \<longleftrightarrow> w \<in> L n"
proof (induction w arbitrary: n)
  case Nil
  then show ?case using lang_graph_words(1)[OF g] by auto
next
  case (Cons c w)
  show ?case
  proof (cases "0 \<le> letter_index c \<and> letter_index c < 26")
    case False
    have "c # w \<notin> L n"
    proof
      assume "c # w \<in> L n"
      then have "lowercase (c # w)" using lang_graph_words(2)[OF g Cons.prems] by blast
      then show False using False by (simp add: lowercase_def)
    qed
    then show ?thesis using False by auto
  next
    case True
    let ?j = "nat (letter_index c)"
    have j: "?j < ALPHABET_SIZE" and lj: "letter ?j = c"
      using True letter_of_index by auto
    note d = lang_graphD[OF g Cons.prems j]
    show ?thesis
    proof (cases "w = []")
      case w: True
      have "[c] \<in> L n \<Longrightarrow> child h n ?j \<noteq> 0" using d(1) lj by auto
      then show ?thesis using True w d(4) lj by auto
    next
      case w: False
      show ?thesis
      proof (cases "child h n ?j = 0")
        case c0: True
        then have "c # w \<notin> L n" using d(1) lj by auto
        then show ?thesis using c0 by simp
      next
        case c1: False
        have "accepts h (child h n ?j) w \<longleftrightarrow> w \<in> L (child h n ?j)"
          using Cons.IH[OF d(2)[OF c1]] .
        then show ?thesis using True w c1 d(3)[OF c1] lj by simp
      qed
    qed
  qed
qed

lemma rlang_lang: "lang_graph h N L \<Longrightarrow> n \<in> N \<Longrightarrow> rlang h n = L n"
  using accepts_lang by (auto simp: rlang_def)

lemma reach_subset:
  assumes "lang_graph h N L" "root \<in> N"
  shows "reach h root \<subseteq> N"
proof
  fix a assume "a \<in> reach h root"
  then show "a \<in> N"
    by (induction rule: reach.induct) (use assms lang_graphD(2) in auto)
qed

lemma rl_words:
  assumes s: "start_inv h1 root K T" and w: "w \<in> rl K T a"
  shows "w \<noteq> []" "lowercase w"
proof -
  show "w \<noteq> []" using w by (simp add: rl_def)
  have "K a @ w \<in> insert [] (prefixes T)"
    using w start_trie[OF s] unfolding trie_inv_def rl_def by auto
  then have "lowercase (K a @ w)"
    using start_trie[OF s] unfolding trie_inv_def by blast
  then show "lowercase w" by (simp add: lowercase_def)
qed

lemma rl_first:
  assumes s: "start_inv h1 root K T" and a: "a \<in> {root..<brk h1}" and j: "j < ALPHABET_SIZE"
  shows "child h1 a j \<noteq> 0 \<longleftrightarrow> (\<exists>u. letter j # u \<in> rl K T a)"
  using start_child_iff[OF s a j] by (auto simp: rl_def)

lemma lang_graph_trie:
  assumes s: "start_inv h1 root K T"
  shows "lang_graph h1 {root..<brk h1} (rl K T)"
  unfolding lang_graph_def
proof (intro ballI conjI allI impI)
  fix n w assume "n \<in> {root..<brk h1}" "w \<in> rl K T n"
  then show "w \<noteq> []" "lowercase w" using rl_words[OF s] by auto
next
  fix n j assume n: "n \<in> {root..<brk h1}" and j: "j < ALPHABET_SIZE"
  show "child h1 n j \<noteq> 0 \<longleftrightarrow> (\<exists>u. letter j # u \<in> rl K T n)"
    using rl_first[OF s n j] .
  show "eflag h1 n j \<longleftrightarrow> [letter j] \<in> rl K T n"
    using rl_single[OF s n j] by simp
  assume c: "child h1 n j \<noteq> 0"
  show "child h1 n j \<in> {root..<brk h1}"
    using trie_child(4)[OF start_trie[OF s] n j c] .
  show "rl K T (child h1 n j) = {u. u \<noteq> [] \<and> letter j # u \<in> rl K T n}"
    using rl_child[OF s n j c] .
qed

text \<open>The heap after compression is an automaton on the root and the canonical nodes.\<close>

lemma lang_graph_rewired:
  assumes s: "start_inv h1 root K T" and n: "n \<in> {root..<brk h1}"
    and rw: "\<forall>j<ALPHABET_SIZE. rewired h1 K T h C n j" and j: "j < ALPHABET_SIZE"
  shows "child h n j \<noteq> 0 \<longleftrightarrow> (\<exists>u. letter j # u \<in> rl K T n)"
    and "child h n j \<noteq> 0 \<longrightarrow>
          child h n j \<in> C \<and> rl K T (child h n j) = {u. u \<noteq> [] \<and> letter j # u \<in> rl K T n}"
    and "eflag h n j \<longleftrightarrow> [letter j] \<in> rl K T n"
proof -
  have r: "rewired h1 K T h C n j" using rw j by simp
  show "child h n j \<noteq> 0 \<longleftrightarrow> (\<exists>u. letter j # u \<in> rl K T n)"
    using r rl_first[OF s n j] by (auto simp: rewired_def)
  show "eflag h n j \<longleftrightarrow> [letter j] \<in> rl K T n"
    using r rl_single[OF s n j] by (auto simp: rewired_def)
  show "child h n j \<noteq> 0 \<longrightarrow>
          child h n j \<in> C \<and> rl K T (child h n j) = {u. u \<noteq> [] \<and> letter j # u \<in> rl K T n}"
  proof
    assume c: "child h n j \<noteq> 0"
    then have c1: "child h1 n j \<noteq> 0" using r by (auto simp: rewired_def)
    show "child h n j \<in> C \<and> rl K T (child h n j) = {u. u \<noteq> [] \<and> letter j # u \<in> rl K T n}"
      using r c rl_child[OF s n j c1] by (auto simp: rewired_def)
  qed
qed

lemma lang_graph_dawg:
  assumes s: "start_inv h1 root K T" and ci: "cinv h1 root K T h m D"
    and rr: "\<forall>j<ALPHABET_SIZE. rewired h1 K T h (canon_set m) root j"
  shows "lang_graph h (insert root (canon_set m)) (rl K T)"
proof -
  have root: "root \<in> {root..<brk h1}" using start_trie[OF s] unfolding trie_inv_def by simp
  have CS: "canon_set m \<subseteq> {root..<brk h1}" using ci unfolding cinv_def by auto
  have rw: "\<forall>j<ALPHABET_SIZE. rewired h1 K T h (canon_set m) n j"
    if "n \<in> insert root (canon_set m)" for n
    using that rr ci unfolding cinv_def by auto
  show ?thesis
    unfolding lang_graph_def
  proof (intro ballI conjI allI impI)
    fix n w assume "n \<in> insert root (canon_set m)" "w \<in> rl K T n"
    then show "w \<noteq> []" "lowercase w" using rl_words[OF s] by auto
  next
    fix n j assume n: "n \<in> insert root (canon_set m)" and j: "j < ALPHABET_SIZE"
    have nS: "n \<in> {root..<brk h1}" using n root CS by auto
    note f = lang_graph_rewired[OF s nS rw[OF n] j]
    show "child h n j \<noteq> 0 \<longleftrightarrow> (\<exists>u. letter j # u \<in> rl K T n)" using f(1) .
    show "eflag h n j \<longleftrightarrow> [letter j] \<in> rl K T n" using f(3) .
    assume c: "child h n j \<noteq> 0"
    show "child h n j \<in> insert root (canon_set m)" using f(2) c by simp
    show "rl K T (child h n j) = {u. u \<noteq> [] \<and> letter j # u \<in> rl K T n}" using f(2) c by simp
  qed
qed

text \<open>Every node of the trie is reachable from the root.\<close>

lemma reach_trie:
  assumes s: "start_inv h1 root K T"
  shows "reach h1 root = {root..<brk h1}"
proof
  have root: "root \<in> {root..<brk h1}" using start_trie[OF s] unfolding trie_inv_def by simp
  show "reach h1 root \<subseteq> {root..<brk h1}"
    using reach_subset[OF lang_graph_trie[OF s] root] .
  note inv = start_trie[OF s]
  have inj: "inj_on K {root..<brk h1}" and img: "K ` {root..<brk h1} = insert [] (prefixes T)"
    and kr: "K root = []" and low: "\<forall>p\<in>insert [] (prefixes T). lowercase p"
    using inv unfolding trie_inv_def by simp_all
  have "a \<in> reach h1 root" if "a \<in> {root..<brk h1}" "K a = p" for a p
    using that
  proof (induction p arbitrary: a rule: rev_induct)
    case Nil
    then have "a = root" using inj_onD[OF inj _ Nil(1) root] kr by simp
    then show ?case by (simp add: reach_root)
  next
    case (snoc x q)
    have "K a \<in> K ` {root..<brk h1}" using snoc.prems(1) by (rule imageI)
    then have inP: "q @ [x] \<in> insert [] (prefixes T)" using img snoc.prems(2) by simp
    then have "q \<in> insert [] (prefixes T)" using prefix_closed[OF inv, of q "[x]"] by simp
    then have "q \<in> K ` {root..<brk h1}" using img by simp
    then obtain b where b: "b \<in> {root..<brk h1}" "K b = q" by (elim imageE) simp
    have br: "b \<in> reach h1 root" using snoc.IH[OF b] .
    have "lowercase (q @ [x])" using low inP by (rule bspec)
    then obtain j where j: "j < ALPHABET_SIZE" "x = letter j"
      using lowercase_letter[of q x "[]"] by blast
    have c: "child h1 b j \<noteq> 0"
      using trie_child_iff[OF inv b(1) j(1)] inP b(2) j(2) by simp
    have "K (child h1 b j) = K a" "child h1 b j \<in> {root..<brk h1}"
      using trie_child(3,4)[OF inv b(1) j(1) c] b(2) j(2) snoc.prems(2) by simp_all
    then have "child h1 b j = a" using inj_onD[OF inj _ _ snoc.prems(1)] by simp
    then show ?case using reach_child[OF br j(1) c] by simp
  qed
  then show "{root..<brk h1} \<subseteq> reach h1 root" by (intro subsetI) simp
qed

lemma cinv_canon:
  assumes "cinv h1 root K T h m D"
  shows "canon_set m \<subseteq> D" "D \<subseteq> {root<..<brk h1}"
    "\<And>c c'. c \<in> canon_set m \<Longrightarrow> c' \<in> canon_set m \<Longrightarrow> rl K T c = rl K T c' \<Longrightarrow> c = c'"
    "\<And>a. a \<in> D \<Longrightarrow> \<exists>c\<in>canon_set m. rl K T c = rl K T a"
    "\<And>c j. c \<in> canon_set m \<Longrightarrow> j < ALPHABET_SIZE \<Longrightarrow> rewired h1 K T h (canon_set m) c j"
  using assms unfolding cinv_def by blast+

text \<open>Every trie node below the root has its canonical node within reach of the root.\<close>

lemma canonical_reachable:
  assumes s: "start_inv h1 root K T" and ci: "cinv h1 root K T h m {root<..<brk h1}"
    and rr: "\<forall>j<ALPHABET_SIZE. rewired h1 K T h (canon_set m) root j"
  shows "a \<in> {root<..<brk h1} \<Longrightarrow> K a = p \<Longrightarrow>
         \<exists>c\<in>reach h root \<inter> canon_set m. rl K T c = rl K T a"
proof (induction p arbitrary: a rule: rev_induct)
  case Nil
  note inv = start_trie[OF s]
  have "inj_on K {root..<brk h1}" "K root = []" "root \<in> {root..<brk h1}"
    using inv unfolding trie_inv_def by simp_all
  then have "a = root" using inj_onD[of K "{root..<brk h1}" a root] Nil by simp
  then show ?case using Nil(1) by simp
next
  case (snoc x q)
  note inv = start_trie[OF s]
  have inj: "inj_on K {root..<brk h1}" and img: "K ` {root..<brk h1} = insert [] (prefixes T)"
    and low: "\<forall>p\<in>insert [] (prefixes T). lowercase p"
    and root: "root \<in> {root..<brk h1}"
    using inv unfolding trie_inv_def by simp_all
  have aS: "a \<in> {root..<brk h1}" using snoc.prems(1) by simp
  have "K a \<in> K ` {root..<brk h1}" using aS by (rule imageI)
  then have inP: "q @ [x] \<in> insert [] (prefixes T)" using img snoc.prems(2) by simp
  then have "q \<in> insert [] (prefixes T)" using prefix_closed[OF inv, of q "[x]"] by simp
  then have "q \<in> K ` {root..<brk h1}" using img by simp
  then obtain b where b: "b \<in> {root..<brk h1}" "K b = q" by (elim imageE) simp
  have "lowercase (q @ [x])" using low inP by (rule bspec)
  then obtain j where j: "j < ALPHABET_SIZE" "x = letter j"
    using lowercase_letter[of q x "[]"] by blast
  have c: "child h1 b j \<noteq> 0"
    using trie_child_iff[OF inv b(1) j(1)] inP b(2) j(2) by simp
  have "K (child h1 b j) = K a" "child h1 b j \<in> {root..<brk h1}"
    using trie_child(3,4)[OF inv b(1) j(1) c] b(2) j(2) snoc.prems(2) by simp_all
  then have ca: "child h1 b j = a" using inj_onD[OF inj _ _ aS] by simp
  text \<open>the node that stands for \<open>b\<close> in the compressed heap\<close>
  have "\<exists>cb\<in>reach h root. cb \<in> {root..<brk h1} \<and> rl K T cb = rl K T b \<and>
          (\<forall>j<ALPHABET_SIZE. rewired h1 K T h (canon_set m) cb j)"
  proof (cases "b = root")
    case True
    then show ?thesis using reach_root[of root h] root rr by blast
  next
    case False
    then have "b \<in> {root<..<brk h1}" using b(1) by auto
    then obtain cb where cb: "cb \<in> reach h root" "cb \<in> canon_set m" "rl K T cb = rl K T b"
      using snoc.IH[OF _ b(2)] by blast
    have "cb \<in> {root..<brk h1}" using cb(2) cinv_canon(1,2)[OF ci] by auto
    then show ?thesis using cb cinv_canon(5)[OF ci cb(2)] by blast
  qed
  then obtain cb where cb: "cb \<in> reach h root" "cb \<in> {root..<brk h1}" "rl K T cb = rl K T b"
    "\<forall>j<ALPHABET_SIZE. rewired h1 K T h (canon_set m) cb j" by blast
  have e: "child h1 cb j \<noteq> 0" "rl K T (child h1 cb j) = rl K T (child h1 b j)"
    using rl_eq_iff[OF s cb(2) b(1)] cb(3) j(1) c by auto
  have r: "rewired h1 K T h (canon_set m) cb j" using cb(4) j(1) by simp
  have "child h cb j \<noteq> 0" "child h cb j \<in> canon_set m"
    "rl K T (child h cb j) = rl K T (child h1 cb j)"
    using r e(1) by (auto simp: rewired_def)
  then show ?case
    using reach_child[OF cb(1) j(1)] e(2) ca by auto
qed

lemma reach_dawg:
  assumes s: "start_inv h1 root K T" and ci: "cinv h1 root K T h m {root<..<brk h1}"
    and rr: "\<forall>j<ALPHABET_SIZE. rewired h1 K T h (canon_set m) root j"
  shows "reach h root = insert root (canon_set m)"
proof
  show "reach h root \<subseteq> insert root (canon_set m)"
    using reach_subset[OF lang_graph_dawg[OF s ci rr]] by simp
  have "c \<in> reach h root" if c: "c \<in> canon_set m" for c
  proof -
    have cD: "c \<in> {root<..<brk h1}" using c cinv_canon(1)[OF ci] by auto
    obtain c' where c': "c' \<in> reach h root" "c' \<in> canon_set m" "rl K T c' = rl K T c"
      using canonical_reachable[OF s ci rr cD refl] by blast
    then have "c' = c" using cinv_canon(3)[OF ci c'(2) c] by simp
    then show ?thesis using c'(1) by simp
  qed
  then show "insert root (canon_set m) \<subseteq> reach h root"
    using reach_root[of root h] by auto
qed

text \<open>The canonical nodes are as many as the right languages of the trie nodes.\<close>

lemma canon_card:
  assumes s: "start_inv h1 root K T" and ci: "cinv h1 root K T h m {root<..<brk h1}"
  shows "card (canon_set m) = card (rl K T ` {root<..<brk h1})"
proof -
  have "rl K T ` canon_set m = rl K T ` {root<..<brk h1}"
  proof
    show "rl K T ` canon_set m \<subseteq> rl K T ` {root<..<brk h1}"
      using cinv_canon(1)[OF ci] by (rule image_mono)
    show "rl K T ` {root<..<brk h1} \<subseteq> rl K T ` canon_set m"
    proof
      fix L assume "L \<in> rl K T ` {root<..<brk h1}"
      then obtain a where a: "a \<in> {root<..<brk h1}" "L = rl K T a" by (elim imageE)
      obtain c where "c \<in> canon_set m" "rl K T c = rl K T a"
        using cinv_canon(4)[OF ci a(1)] by blast
      then show "L \<in> rl K T ` canon_set m" using a(2) by (metis imageI)
    qed
  qed
  moreover have "inj_on (rl K T) (canon_set m)"
    using cinv_canon(3)[OF ci] by (intro inj_onI)
  ultimately show ?thesis using card_image[of "rl K T" "canon_set m"] by simp
qed

lemma build_dawg_correct:
  assumes "list_all lowercase ws"
  shows "\<exists>h0 h1 h m K. trie_build ws = Some (1, h0) \<and> trie_move_eow_to_edges 1 h0 = Some h1 \<and>
           dawg_compress 1 h1 hashmap_create = Some (h, m) \<and> build_dawg ws = Some (1, h, m) \<and>
           dawg_inv (set ws) 1 h1 h m K"
proof -
  obtain h0 h1 K where b: "trie_build ws = Some (1, h0)" "trie_move_eow_to_edges 1 h0 = Some h1"
    "edge_inv h1 1 K (insert [] (prefixes (set ws))) (set ws)"
    using build_edge_inv[OF assms] by blast
  have s: "start_inv h1 1 K (set ws)" using b(3) by (simp add: start_inv_def)
  obtain h m where c: "dawg_compress 1 h1 hashmap_create = Some (h, m)"
    "cinv h1 1 K (set ws) h m {1<..<brk h1}"
    "\<forall>j<ALPHABET_SIZE. rewired h1 K (set ws) h (canon_set m) 1 j"
    "same_fields (cells h 1) (cells h1 1)"
    using dawg_compress_correct[OF s] by blast
  have "build_dawg ws = Some (1, h, m)"
    using b(1,2) c(1) by (simp add: build_dawg_def)
  then show ?thesis using b(1,2) c s unfolding dawg_inv_def by blast
qed

lemma dawg_inv_graph:
  assumes "dawg_inv T root h1 h m K"
  shows "lang_graph h (insert root (canon_set m)) (rl K T)"
    and "reach h root = insert root (canon_set m)"
    and "root \<notin> canon_set m"
    and "inj_on (rl K T) (canon_set m)"
proof -
  have s: "start_inv h1 root K T" and ci: "cinv h1 root K T h m {root<..<brk h1}"
    and rr: "\<forall>j<ALPHABET_SIZE. rewired h1 K T h (canon_set m) root j"
    using assms unfolding dawg_inv_def by simp_all
  show "lang_graph h (insert root (canon_set m)) (rl K T)" using lang_graph_dawg[OF s ci rr] .
  show "reach h root = insert root (canon_set m)" using reach_dawg[OF s ci rr] .
  show "root \<notin> canon_set m" using cinv_canon(1)[OF ci] by auto
  show "inj_on (rl K T) (canon_set m)" using cinv_canon(3)[OF ci] by (intro inj_onI)
qed

lemma dawg_classes:
  assumes d: "dawg_inv T root h1 h m K"
  shows "rlang h ` (reach h root - {root}) = rlang h1 ` (reach h1 root - {root})"
    and "inj_on (rlang h) (reach h root - {root})"
proof -
  have s: "start_inv h1 root K T" and ci: "cinv h1 root K T h m {root<..<brk h1}"
    using d unfolding dawg_inv_def by simp_all
  note g = dawg_inv_graph[OF d]
  have R: "reach h root - {root} = canon_set m" using g(2,3) by auto
  have R1: "reach h1 root - {root} = {root<..<brk h1}" using reach_trie[OF s] by auto
  have e: "rlang h c = rl K T c" if "c \<in> canon_set m" for c
    using rlang_lang[OF g(1)] that by simp
  have e1: "rlang h1 a = rl K T a" if "a \<in> {root<..<brk h1}" for a
    using rlang_lang[OF lang_graph_trie[OF s], of a] that by simp
  have "rl K T ` canon_set m = rl K T ` {root<..<brk h1}"
  proof
    show "rl K T ` canon_set m \<subseteq> rl K T ` {root<..<brk h1}"
      using cinv_canon(1)[OF ci] by (rule image_mono)
    show "rl K T ` {root<..<brk h1} \<subseteq> rl K T ` canon_set m"
    proof
      fix L assume "L \<in> rl K T ` {root<..<brk h1}"
      then obtain a where a: "a \<in> {root<..<brk h1}" "L = rl K T a" by (elim imageE)
      obtain c where "c \<in> canon_set m" "rl K T c = rl K T a"
        using cinv_canon(4)[OF ci a(1)] by blast
      then show "L \<in> rl K T ` canon_set m" using a(2) by (metis imageI)
    qed
  qed
  moreover have "rlang h ` canon_set m = rl K T ` canon_set m"
    using e by (intro image_cong) simp_all
  moreover have "rlang h1 ` {root<..<brk h1} = rl K T ` {root<..<brk h1}"
    using e1 by (intro image_cong) simp_all
  ultimately show "rlang h ` (reach h root - {root}) = rlang h1 ` (reach h1 root - {root})"
    unfolding R R1 by simp
  show "inj_on (rlang h) (reach h root - {root})"
    unfolding R
  proof (rule inj_onI)
    fix x y assume xy: "x \<in> canon_set m" "y \<in> canon_set m" "rlang h x = rlang h y"
    then have "rl K T x = rl K T y" using e by simp
    then show "x = y" using inj_onD[OF g(4) _ xy(1,2)] by simp
  qed
qed

lemma rlang_childless: "\<forall>j<ALPHABET_SIZE. child h a j = 0 \<Longrightarrow> rlang h a = {}"
proof -
  assume a: "\<forall>j<ALPHABET_SIZE. child h a j = 0"
  have "\<not> accepts h a w" for w
  proof (cases w)
    case Nil then show ?thesis by simp
  next
    case (Cons c u)
    show ?thesis
    proof (cases "0 \<le> letter_index c \<and> letter_index c < 26")
      case True
      then have "nat (letter_index c) < ALPHABET_SIZE" by auto
      then have "child h a (nat (letter_index c)) = 0" using a by blast
      then show ?thesis using Cons by simp
    next
      case False then show ?thesis using Cons by auto
    qed
  qed
  then show ?thesis by (simp add: rlang_def)
qed

section \<open>Right languages with the flags on the nodes\<close>

lemma accepts_node_trie:
  assumes inv: "trie_inv h root K P T"
  shows "a \<in> {root..<brk h} \<Longrightarrow> accepts_node h a w \<longleftrightarrow> K a @ w \<in> T"
proof (induction w arbitrary: a)
  case Nil
  then show ?case using inv unfolding trie_inv_def by simp
next
  case (Cons c w)
  have TP: "T \<subseteq> P" and low: "\<forall>p\<in>P. lowercase p"
    using inv unfolding trie_inv_def by simp_all
  show ?case
  proof (cases "0 \<le> letter_index c \<and> letter_index c < 26")
    case False
    have "K a @ c # w \<notin> T"
    proof
      assume "K a @ c # w \<in> T"
      then have "lowercase (K a @ c # w)" using TP low by blast
      then show False using False by (simp add: lowercase_def)
    qed
    then show ?thesis using False by auto
  next
    case True
    let ?j = "nat (letter_index c)"
    have j: "?j < ALPHABET_SIZE" and lj: "letter ?j = c"
      using True letter_of_index by auto
    show ?thesis
    proof (cases "child h a ?j = 0")
      case c0: True
      then have "K a @ [c] \<notin> P" using trie_child_iff[OF inv Cons.prems j] lj by simp
      then have "(K a @ [c]) @ w \<notin> P" using prefix_closed[OF inv] by blast
      then have "K a @ c # w \<notin> T" using TP by auto
      then show ?thesis using c0 by simp
    next
      case c1: False
      have ch: "child h a ?j \<in> {root..<brk h}" "K (child h a ?j) = K a @ [c]"
        using trie_child(3,4)[OF inv Cons.prems j c1] lj by simp_all
      show ?thesis using Cons.IH[OF ch(1)] ch(2) True c1 by simp
    qed
  qed
qed

lemma reach_trie_inv:
  assumes inv: "trie_inv h root K P T"
  shows "reach h root = {root..<brk h}"
proof
  have root: "root \<in> {root..<brk h}" using inv unfolding trie_inv_def by simp
  show "reach h root \<subseteq> {root..<brk h}"
  proof
    fix a assume "a \<in> reach h root"
    then show "a \<in> {root..<brk h}"
      by (induction rule: reach.induct) (use root trie_child(4)[OF inv] in auto)
  qed
  have inj: "inj_on K {root..<brk h}" and img: "K ` {root..<brk h} = P"
    and kr: "K root = []" and low: "\<forall>p\<in>P. lowercase p"
    using inv unfolding trie_inv_def by simp_all
  have "a \<in> reach h root" if "a \<in> {root..<brk h}" "K a = p" for a p
    using that
  proof (induction p arbitrary: a rule: rev_induct)
    case Nil
    then have "a = root" using inj_onD[OF inj _ Nil(1) root] kr by simp
    then show ?case by (simp add: reach_root)
  next
    case (snoc x q)
    have "K a \<in> K ` {root..<brk h}" using snoc.prems(1) by (rule imageI)
    then have inP: "q @ [x] \<in> P" using img snoc.prems(2) by simp
    then have "q \<in> P" using prefix_closed[OF inv, of q "[x]"] by simp
    then have "q \<in> K ` {root..<brk h}" using img by simp
    then obtain b where b: "b \<in> {root..<brk h}" "K b = q" by (elim imageE) simp
    have br: "b \<in> reach h root" using snoc.IH[OF b] .
    have "lowercase (q @ [x])" using low inP by (rule bspec)
    then obtain j where j: "j < ALPHABET_SIZE" "x = letter j"
      using lowercase_letter[of q x "[]"] by blast
    have c: "child h b j \<noteq> 0"
      using trie_child_iff[OF inv b(1) j(1)] inP b(2) j(2) by simp
    have "K (child h b j) = K a" "child h b j \<in> {root..<brk h}"
      using trie_child(3,4)[OF inv b(1) j(1) c] b(2) j(2) snoc.prems(2) by simp_all
    then have "child h b j = a" using inj_onD[OF inj _ _ snoc.prems(1)] by simp
    then show ?case using reach_child[OF br j(1) c] by simp
  qed
  then show "{root..<brk h} \<subseteq> reach h root" by (intro subsetI) simp
qed

lemma trie_keys_nonroot:
  assumes inv: "trie_inv h root K P T"
  shows "K ` {root<..<brk h} = P - {[]}"
proof -
  have inj: "inj_on K {root..<brk h}" and img: "K ` {root..<brk h} = P"
    and kr: "K root = []" and root: "root < brk h"
    using inv unfolding trie_inv_def by simp_all
  have s: "{root..<brk h} = insert root {root<..<brk h}" using root by auto
  have "K ` {root<..<brk h} = K ` ({root..<brk h} - {root})"
    using s by (intro arg_cong[where f = "(`) K"]) auto
  also have "\<dots> = K ` {root..<brk h} - K ` {root}"
    using inj by (intro inj_on_image_set_diff[where C = "{root..<brk h}"]) (use root in auto)
  finally show ?thesis using img kr by simp
qed

lemma trie_classes:
  assumes inv: "trie_inv h root K P T"
  shows "right_language h ` (reach h root - {root}) = (\<lambda>p. {u. p @ u \<in> T}) ` (P - {[]})"
proof -
  have root: "root < brk h" using inv unfolding trie_inv_def by simp
  have R: "reach h root - {root} = {root<..<brk h}"
    using reach_trie_inv[OF inv] root by auto
  have "right_language h a = {u. K a @ u \<in> T}" if "a \<in> {root<..<brk h}" for a
    using accepts_node_trie[OF inv, of a] that by (simp add: right_language_def)
  then have "right_language h ` {root<..<brk h} = (\<lambda>a. {u. K a @ u \<in> T}) ` {root<..<brk h}"
    by (intro image_cong) simp_all
  also have "\<dots> = (\<lambda>p. {u. p @ u \<in> T}) ` (K ` {root<..<brk h})"
    by (simp add: image_image)
  finally show ?thesis using R trie_keys_nonroot[OF inv] by simp
qed

lemma dawg_classes_keys:
  assumes d: "dawg_inv T root h1 h m K"
  shows "card (reach h root - {root}) =
         card ((\<lambda>p. {u. u \<noteq> [] \<and> p @ u \<in> T}) ` (insert [] (prefixes T) - {[]}))"
proof -
  have s: "start_inv h1 root K T" and ci: "cinv h1 root K T h m {root<..<brk h1}"
    using d unfolding dawg_inv_def by simp_all
  note g = dawg_inv_graph[OF d]
  have R: "reach h root - {root} = canon_set m" using g(2,3) by auto
  have "rl K T ` {root<..<brk h1} = (\<lambda>p. {u. u \<noteq> [] \<and> p @ u \<in> T}) ` (K ` {root<..<brk h1})"
    by (simp add: image_image rl_def)
  then show ?thesis
    using canon_card[OF s ci] R trie_keys_nonroot[OF start_trie[OF s]] by simp
qed

lemma app_eq_1: "p @ u = [x] \<longleftrightarrow> (p = [] \<and> u = [x]) \<or> (p = [x] \<and> u = [])"
  by (cases p) auto

lemma app_eq_2:
  "p @ u = [x, y] \<longleftrightarrow> (p = [] \<and> u = [x, y]) \<or> (p = [x] \<and> u = [y]) \<or> (p = [x, y] \<and> u = [])"
  by (cases p) (auto simp: app_eq_1)

lemma prefixes_a_ab_cb:
  "insert [] (prefixes {''a'', ''ab'', ''cb''}) - {[]} = {''a'', ''ab'', ''c'', ''cb''}"
  by (auto simp: prefixes_def app_eq_1 app_eq_2)

lemma std_classes_a_ab_cb:
  "card ((\<lambda>p. {u. p @ u \<in> {''a'', ''ab'', ''cb''}}) ` {''a'', ''ab'', ''c'', ''cb''}) = 3"
proof -
  have a: "{u. ''a'' @ u \<in> {''a'', ''ab'', ''cb''}} = {[], ''b''}" by auto
  have ab: "{u. ''ab'' @ u \<in> {''a'', ''ab'', ''cb''}} = {[]}" by auto
  have c: "{u. ''c'' @ u \<in> {''a'', ''ab'', ''cb''}} = {''b''}" by auto
  have cb: "{u. ''cb'' @ u \<in> {''a'', ''ab'', ''cb''}} = {[]}" by auto
  have "(\<lambda>p. {u. p @ u \<in> {''a'', ''ab'', ''cb''}}) ` {''a'', ''ab'', ''c'', ''cb''} =
        {{[], ''b''}, {[]}, {''b''}}"
    unfolding image_insert image_empty a ab c cb by auto
  moreover have "card {{[], ''b''}, {[]}, {''b''}} = 3" by auto
  ultimately show ?thesis by simp
qed

lemma edge_classes_a_ab_cb:
  "card ((\<lambda>p. {u. u \<noteq> [] \<and> p @ u \<in> {''a'', ''ab'', ''cb''}}) ` {''a'', ''ab'', ''c'', ''cb''}) = 2"
proof -
  have a: "{u. u \<noteq> [] \<and> ''a'' @ u \<in> {''a'', ''ab'', ''cb''}} = {''b''}" by auto
  have ab: "{u. u \<noteq> [] \<and> ''ab'' @ u \<in> {''a'', ''ab'', ''cb''}} = {}" by auto
  have c: "{u. u \<noteq> [] \<and> ''c'' @ u \<in> {''a'', ''ab'', ''cb''}} = {''b''}" by auto
  have cb: "{u. u \<noteq> [] \<and> ''cb'' @ u \<in> {''a'', ''ab'', ''cb''}} = {}" by auto
  have "(\<lambda>p. {u. u \<noteq> [] \<and> p @ u \<in> {''a'', ''ab'', ''cb''}}) ` {''a'', ''ab'', ''c'', ''cb''} =
        {{''b''}, {}}"
    unfolding image_insert image_empty a ab c cb by auto
  moreover have "card {{''b''}, {}} = 2" by auto
  ultimately show ?thesis by simp
qed

lemma lowercase_a_ab_cb: "list_all lowercase [''a'', ''ab'', ''cb'']"
  by (simp add: lowercase_def letter_index_def)

lemma counts_a_ab_cb:
  "dawg_node_count [''a'', ''ab'', ''cb''] = Some 2"
  "trie_class_count [''a'', ''ab'', ''cb''] = Some 3"
proof -
  let ?ws = "[''a'', ''ab'', ''cb'']"
  obtain h0 h1 h m K where b: "trie_build ?ws = Some (1, h0)"
    "build_dawg ?ws = Some (1, h, m)" "dawg_inv (set ?ws) 1 h1 h m K"
    using build_dawg_correct[OF lowercase_a_ab_cb] by blast
  have set: "set ?ws = {''a'', ''ab'', ''cb''}" by simp
  show "dawg_node_count ?ws = Some 2"
    using b(2) dawg_classes_keys[OF b(3)] edge_classes_a_ab_cb
    unfolding set prefixes_a_ab_cb by (simp add: dawg_node_count_def)
  obtain h0' K' where t: "trie_build ?ws = Some (1, h0')"
    "trie_inv h0' 1 K' (insert [] (prefixes (set ?ws))) (set ?ws)"
    using trie_build_inv[OF lowercase_a_ab_cb] by blast
  show "trie_class_count ?ws = Some 3"
    using t(1) trie_classes[OF t(2)] std_classes_a_ab_cb
    unfolding set prefixes_a_ab_cb by (simp add: trie_class_count_def)
qed

lemma nodes_a_ab_cb:
  "Option.bind (build_dawg [''a'', ''ab'', ''cb'']) (\<lambda>(root, h, m). dawg_nodes root h) = Some 3"
  apply (simp add: heap_defs build_defs cong: run_congs)
  apply (simp add: dawg_nodes_def heap_defs dawg_reset_visited_run.simps cong: run_congs)
  apply (simp add: heap_defs dawg_count_nodes_run.simps cong: run_congs)
  done

section \<open>Flattening\<close>

lemma offset_map_get_put:
  "offset_map_get (offset_map_put om n v) n' = (if n' = n then v else offset_map_get om n')"
  by (auto simp: offset_map_get_def offset_map_put_def)

lemma offset_map_get_create: "offset_map_get offset_map_create n = - 1"
  by (simp add: offset_map_get_def offset_map_create_def)

lemma cc_nonneg: "0 \<le> cc h n"
  by (simp add: cc_def count_children_def)

lemma slot_of_0: "slot_of h n 0 = 0"
  by (simp add: slot_of_def)

lemma slot_of_Suc:
  assumes "length (children (cells h n)) = ALPHABET_SIZE" "j < ALPHABET_SIZE"
  shows "slot_of h n (Suc j) = slot_of h n j + (if child h n j \<noteq> 0 then 1 else 0)"
  using assms by (simp add: slot_of_def take_Suc_conv_app_nth child_def)

lemma slot_of_end:
  assumes "length (children (cells h n)) = ALPHABET_SIZE"
  shows "slot_of h n ALPHABET_SIZE = cc h n"
  using assms by (simp add: slot_of_def cc_def count_children_def)

lemma slot_of_mono:
  assumes "j \<le> j'"
  shows "slot_of h n j \<le> slot_of h n j'"
proof -
  have "take j' (children (cells h n)) =
        take j (children (cells h n)) @ take (j' - j) (drop j (children (cells h n)))"
    using take_add[of j "j' - j" "children (cells h n)"] assms by simp
  then show ?thesis by (simp add: slot_of_def)
qed

lemma slot_of_less:
  assumes "length (children (cells h n)) = ALPHABET_SIZE" "j < ALPHABET_SIZE" "child h n j \<noteq> 0"
  shows "0 \<le> slot_of h n j" "slot_of h n j < cc h n"
proof -
  show "0 \<le> slot_of h n j" by (simp add: slot_of_def)
  have "slot_of h n (Suc j) \<le> slot_of h n ALPHABET_SIZE"
    using assms(2) by (intro slot_of_mono) simp
  then show "slot_of h n j < cc h n"
    using slot_of_Suc[OF assms(1,2)] slot_of_end[OF assms(1)] assms(3) by simp
qed

lemma slot_of_inj:
  assumes len: "length (children (cells h n)) = ALPHABET_SIZE"
    and j: "j < ALPHABET_SIZE" "child h n j \<noteq> 0" and j': "j' < ALPHABET_SIZE" "child h n j' \<noteq> 0"
    and eq: "slot_of h n j = slot_of h n j'"
  shows "j = j'"
proof -
  have lt: "slot_of h n a < slot_of h n b"
    if "a < b" "a < ALPHABET_SIZE" "child h n a \<noteq> 0" for a b
  proof -
    have "slot_of h n (Suc a) \<le> slot_of h n b" using that(1) by (intro slot_of_mono) simp
    then show ?thesis using slot_of_Suc[OF len that(2)] that(3) by simp
  qed
  show ?thesis
    using lt[of j j'] lt[of j' j] j j' eq by (cases j j' rule: linorder_cases) auto
qed

lemma off_append:
  assumes "n \<in> set q"
  shows "off h (q @ [c]) n = off h q n"
proof -
  have "takeWhile (\<lambda>x. x \<noteq> n) (q @ [c]) = takeWhile (\<lambda>x. x \<noteq> n) q"
    using assms by (intro takeWhile_append1[where x = n]) simp_all
  then show ?thesis by (simp add: off_def)
qed

lemma off_new:
  assumes "c \<notin> set q"
  shows "off h (q @ [c]) c = sum_list (map (cc h) q)"
proof -
  have "takeWhile (\<lambda>x. x \<noteq> c) (q @ [c]) = q @ takeWhile (\<lambda>x. x \<noteq> c) [c]"
    using assms by (intro takeWhile_append2) auto
  then show ?thesis by (simp add: off_def)
qed

lemma off_first: "off h (n # q) n = 0"
  by (simp add: off_def)

lemma dawgD:
  assumes "dawg h root N L"
  shows "lang_graph h N L" "root \<in> N" "finite N" "0 \<notin> N" "inj_on L N"
    "\<And>n j. n \<in> N \<Longrightarrow> j < ALPHABET_SIZE \<Longrightarrow> child h n j \<noteq> root"
    "\<And>a. length (children (cells h a)) = ALPHABET_SIZE"
  using assms unfolding dawg_def by blast+

lemma dawg_child:
  assumes "dawg h root N L" "n \<in> N" "j < ALPHABET_SIZE" "child h n j \<noteq> 0"
  shows "child h n j \<in> N"
  using lang_graphD(2)[OF dawgD(1)[OF assms(1)] assms(2-4)] .

lemma off_nonneg: "0 \<le> off h q n"
  unfolding off_def by (rule sum_list_nonneg) (auto simp: cc_nonneg)

lemma sum_cc_nonneg: "0 \<le> sum_list (map (cc h) q)"
  by (rule sum_list_nonneg) (auto simp: cc_nonneg)

text \<open>One step of the inner loop of phase 1.\<close>

lemma assign_child_inv:
  assumes d: "dawg h root N L" and inv: "assign_inv h root N qf (queue, om, sz)"
    and node: "node \<in> set queue" and j: "j < ALPHABET_SIZE"
    and res: "assign_child h node j (queue, om, sz) = (queue', om', sz')"
  shows "assign_inv h root N qf (queue', om', sz')"
    and "\<exists>ext. queue' = queue @ ext"
    and "\<And>n. assigned om n \<Longrightarrow> assigned om' n"
    and "child h node j \<noteq> 0 \<Longrightarrow> assigned om' (child h node j)"
proof -
  let ?c = "child h node j"
  have nodeN: "node \<in> N" using inv node by (auto simp: assign_inv_def)
  have I: "qf \<le> length queue" "distinct queue" "set queue \<subseteq> N" "queue \<noteq> []" "hd queue = root"
    "\<forall>n\<in>set queue. offset_map_get om n = off h queue n"
    "\<forall>n. n \<notin> set queue \<longrightarrow>
           \<not> assigned om n \<or> (offset_map_get om n = 0 \<and> cc h n = 0 \<and> n \<in> N)"
    "\<forall>n\<in>set queue. n = root \<or> 0 < cc h n"
    "sz = sum_list (map (cc h) queue)"
    "\<forall>k<qf. \<forall>j<ALPHABET_SIZE. child h (queue ! k) j \<noteq> 0 \<longrightarrow>
           assigned om (child h (queue ! k) j)"
    "\<forall>k<length queue. k = 0 \<or> (\<exists>k'<k. \<exists>j<ALPHABET_SIZE. child h (queue ! k') j = queue ! k)"
    using inv unfolding assign_inv_def by simp_all
  consider (none) "?c = 0" | (old) "?c \<noteq> 0" "assigned om ?c"
    | (leaf) "?c \<noteq> 0" "\<not> assigned om ?c" "cc h ?c = 0"
    | (inner) "?c \<noteq> 0" "\<not> assigned om ?c" "0 < cc h ?c"
    using cc_nonneg[of h ?c] by fastforce
  then have "assign_inv h root N qf (queue', om', sz') \<and> (\<exists>ext. queue' = queue @ ext) \<and>
     (\<forall>n. assigned om n \<longrightarrow> assigned om' n) \<and> (?c \<noteq> 0 \<longrightarrow> assigned om' ?c)"
  proof cases
    case none
    then have "queue' = queue" "om' = om" "sz' = sz"
      using res by (simp_all add: assign_child_def)
    then show ?thesis using inv none by simp
  next
    case old
    then have "queue' = queue" "om' = om" "sz' = sz"
      using res by (simp_all add: assign_child_def assigned_def)
    then show ?thesis using inv old by simp
  next
    case leaf
    then have r: "queue' = queue" "om' = offset_map_put om ?c 0" "sz' = sz"
      using res by (simp_all add: assign_child_def assigned_def Let_def cc_def)
    have cN: "?c \<in> N" using dawg_child[OF d nodeN j leaf(1)] .
    have cq: "?c \<notin> set queue"
      using I(6) leaf(2) off_nonneg[of h queue ?c] by (auto simp: assigned_def)
    have g: "offset_map_get om' n = (if n = ?c then 0 else offset_map_get om n)" for n
      by (simp add: r(2) offset_map_get_put)
    have a: "assigned om' n \<longleftrightarrow> n = ?c \<or> assigned om n" for n
      by (simp add: assigned_def g)
    have "assign_inv h root N qf (queue, om', sz)"
      unfolding assign_inv_def using I cq cN leaf(3) by (simp add: g a)
    then show ?thesis using r a by simp
  next
    case inner
    then have r: "queue' = queue @ [?c]" "om' = offset_map_put om ?c sz" "sz' = sz + cc h ?c"
      using res by (simp_all add: assign_child_def assigned_def Let_def cc_def)
    have cN: "?c \<in> N" using dawg_child[OF d nodeN j inner(1)] .
    have cq: "?c \<notin> set queue"
      using I(6) inner(2) off_nonneg[of h queue ?c] by (auto simp: assigned_def)
    have cI: "\<not> assigned om ?c" using inner(2) .
    have g: "offset_map_get om' n = (if n = ?c then sz else offset_map_get om n)" for n
      by (simp add: r(2) offset_map_get_put)
    have sz0: "0 \<le> sz" using I(9) sum_cc_nonneg by simp
    have a: "assigned om' n \<longleftrightarrow> n = ?c \<or> assigned om n" for n
      using sz0 by (auto simp: assigned_def g)
    have c1: "qf \<le> length queue'" "distinct queue'" "set queue' \<subseteq> N" "queue' \<noteq> []"
      "hd queue' = root"
      using I(1-5) cq cN by (simp_all add: r(1))
    have c6: "\<forall>n\<in>set queue'. offset_map_get om' n = off h queue' n"
    proof
      fix n assume "n \<in> set queue'"
      then consider "n \<in> set queue" | "n = ?c" by (auto simp: r(1))
      then show "offset_map_get om' n = off h queue' n"
      proof cases
        case 1
        then have "n \<noteq> ?c" using cq by auto
        then show ?thesis using 1 I(6) off_append[OF 1] by (simp add: g r(1))
      next
        case 2
        then show ?thesis using off_new[OF cq] I(9) by (simp add: g r(1))
      qed
    qed
    have c7: "\<forall>n. n \<notin> set queue' \<longrightarrow>
           \<not> assigned om' n \<or> (offset_map_get om' n = 0 \<and> cc h n = 0 \<and> n \<in> N)"
      using I(7) by (simp add: r(1) a g)
    have c8: "\<forall>n\<in>set queue'. n = root \<or> 0 < cc h n"
      using I(8) inner(3) by (simp add: r(1))
    have c9: "sz' = sum_list (map (cc h) queue')"
      using I(9) by (simp add: r(1,3))
    have c10: "\<forall>k<qf. \<forall>j<ALPHABET_SIZE. child h (queue' ! k) j \<noteq> 0 \<longrightarrow>
           assigned om' (child h (queue' ! k) j)"
      using I(10) I(1) by (simp add: r(1) a nth_append)
    have c11: "\<forall>k<length queue'. k = 0 \<or>
        (\<exists>k'<k. \<exists>j<ALPHABET_SIZE. child h (queue' ! k') j = queue' ! k)"
    proof (intro allI impI)
      fix k assume k: "k < length queue'"
      show "k = 0 \<or> (\<exists>k'<k. \<exists>j<ALPHABET_SIZE. child h (queue' ! k') j = queue' ! k)"
      proof (cases "k < length queue")
        case True
        then consider "k = 0" | k' j' where "k' < k" "j' < ALPHABET_SIZE"
          "child h (queue ! k') j' = queue ! k"
          using I(11) by blast
        then show ?thesis
        proof cases
          case 1 then show ?thesis by simp
        next
          case 2
          then have "child h (queue' ! k') j' = queue' ! k"
            using True by (simp add: r(1) nth_append)
          then show ?thesis using 2(1,2) by blast
        qed
      next
        case False
        then have kk: "k = length queue" using k by (simp add: r(1))
        obtain k' where k': "k' < length queue" "queue ! k' = node"
          using node by (auto simp: in_set_conv_nth)
        have "child h (queue' ! k') j = queue' ! k"
          using k' kk by (simp add: r(1) nth_append)
        then show ?thesis using k'(1) kk j by blast
      qed
    qed
    have "assign_inv h root N qf (queue', om', sz')"
      unfolding assign_inv_def using c1 c6 c7 c8 c9 c10 c11 by simp
    then show ?thesis using r a by simp
  qed
  then show "assign_inv h root N qf (queue', om', sz')"
    and "\<exists>ext. queue' = queue @ ext"
    and "\<And>n. assigned om n \<Longrightarrow> assigned om' n"
    and "child h node j \<noteq> 0 \<Longrightarrow> assigned om' (child h node j)"
    by blast+
qed

lemma assign_fold_inv:
  assumes d: "dawg h root N L" and inv: "assign_inv h root N qf st" and node: "node \<in> set (fst st)"
  shows "j \<le> ALPHABET_SIZE \<Longrightarrow>
     assign_inv h root N qf (fold (assign_child h node) [0..<j] st) \<and>
     (\<exists>ext. fst (fold (assign_child h node) [0..<j] st) = fst st @ ext) \<and>
     (\<forall>n. assigned (fst (snd st)) n \<longrightarrow>
          assigned (fst (snd (fold (assign_child h node) [0..<j] st))) n) \<and>
     (\<forall>j'<j. child h node j' \<noteq> 0 \<longrightarrow>
          assigned (fst (snd (fold (assign_child h node) [0..<j] st))) (child h node j'))"
proof (induction j)
  case 0
  then show ?case using inv by simp
next
  case (Suc j)
  let ?s = "fold (assign_child h node) [0..<j] st"
  obtain q1 om1 sz1 where s: "?s = (q1, om1, sz1)" by (cases ?s) auto
  obtain q2 om2 sz2 where r: "assign_child h node j (q1, om1, sz1) = (q2, om2, sz2)"
    by (cases "assign_child h node j (q1, om1, sz1)") auto
  have IH: "assign_inv h root N qf (q1, om1, sz1)" "\<exists>ext. q1 = fst st @ ext"
    "\<forall>n. assigned (fst (snd st)) n \<longrightarrow> assigned om1 n"
    "\<forall>j'<j. child h node j' \<noteq> 0 \<longrightarrow> assigned om1 (child h node j')"
    using Suc s by simp_all
  have node1: "node \<in> set q1" using IH(2) node by auto
  have j: "j < ALPHABET_SIZE" using Suc.prems by simp
  note st = assign_child_inv[OF d IH(1) node1 j r]
  have f: "fold (assign_child h node) [0..<Suc j] st = (q2, om2, sz2)"
    using s r by simp
  have "\<forall>j'<Suc j. child h node j' \<noteq> 0 \<longrightarrow> assigned om2 (child h node j')"
    using IH(4) st(3,4) by (auto simp: less_Suc_eq)
  moreover have "\<exists>ext. q2 = fst st @ ext" using IH(2) st(2) by auto
  moreover have "\<forall>n. assigned (fst (snd st)) n \<longrightarrow> assigned om2 n"
    using IH(3) st(3) by blast
  ultimately show ?case using st(1) unfolding f by simp
qed

lemma assign_inv_Suc:
  assumes inv: "assign_inv h root N qf (queue, om, sz)" and qf: "qf < length queue"
    and kids: "\<forall>j<ALPHABET_SIZE. child h (queue ! qf) j \<noteq> 0 \<longrightarrow> assigned om (child h (queue ! qf) j)"
  shows "assign_inv h root N (Suc qf) (queue, om, sz)"
  using assms unfolding assign_inv_def by (auto simp: less_Suc_eq)

lemma flatten_assign_unfold:
  "flatten_assign h q_front st =
     (if q_front < length (fst st)
      then flatten_assign h (Suc q_front)
             (fold (assign_child h (fst st ! q_front)) [0..<ALPHABET_SIZE] st)
      else Some st)"
  by (rule flatten_assign.simps)

text \<open>Phase 1 ends, with every node it has queued taken out again.\<close>

lemma flatten_assign_correct:
  assumes d: "dawg h root N L"
  shows "assign_inv h root N qf st \<Longrightarrow>
     \<exists>st'. flatten_assign h qf st = Some st' \<and> assign_inv h root N (length (fst st')) st'"
proof (induction "card N - qf" arbitrary: qf st rule: less_induct)
  case less
  obtain queue om sz where st: "st = (queue, om, sz)" by (cases st) auto
  have I: "qf \<le> length queue" "distinct queue" "set queue \<subseteq> N"
    using less.prems unfolding st assign_inv_def by simp_all
  have len: "length queue \<le> card N"
    using I(2,3) dawgD(3)[OF d] by (metis card_mono distinct_card)
  show ?case
  proof (cases "qf < length queue")
    case False
    then have "qf = length queue" using I(1) by simp
    then show ?thesis
      using less.prems False by (subst flatten_assign_unfold) (simp add: st)
  next
    case True
    let ?node = "queue ! qf"
    let ?s = "fold (assign_child h ?node) [0..<ALPHABET_SIZE] st"
    have node: "?node \<in> set (fst st)" using True by (simp add: st)
    note f = assign_fold_inv[OF d less.prems node, of ALPHABET_SIZE, simplified]
    obtain q1 om1 sz1 where s: "?s = (q1, om1, sz1)" by (cases ?s) auto
    have f1: "assign_inv h root N qf (q1, om1, sz1)" "\<exists>ext. q1 = queue @ ext"
      "\<forall>j'<ALPHABET_SIZE. child h ?node j' \<noteq> 0 \<longrightarrow> assigned om1 (child h ?node j')"
      using f s by (simp_all add: st)
    have q1: "qf < length q1" "q1 ! qf = ?node"
      using f1(2) True by (auto simp: nth_append)
    have inv': "assign_inv h root N (Suc qf) (q1, om1, sz1)"
      using assign_inv_Suc[OF f1(1) q1(1)] f1(3) q1(2) by simp
    have "card N - Suc qf < card N - qf" using True len by simp
    from less.hyps[OF this inv']
    obtain st' where r: "flatten_assign h (Suc qf) (q1, om1, sz1) = Some st'"
      "assign_inv h root N (length (fst st')) st'" by blast
    have "flatten_assign h qf st = Some st'"
      using r(1) True s by (subst flatten_assign_unfold) (simp add: st)
    then show ?thesis using r(2) by blast
  qed
qed

lemma assign_inv_initial:
  assumes d: "dawg h root N L"
  shows "assign_inv h root N 0
           ([root], offset_map_put offset_map_create root 0, count_children (cells h root))"
proof -
  have g: "offset_map_get (offset_map_put offset_map_create root 0) n = (if n = root then 0 else - 1)"
    for n by (simp add: offset_map_get_put offset_map_get_create)
  show ?thesis
    unfolding assign_inv_def using dawgD(2)[OF d]
    by (simp add: g assigned_def off_first cc_def)
qed

lemma flatten_offsets_correct:
  assumes d: "dawg h root N L"
  shows "\<exists>queue om sz. flatten_offsets root h = Some (queue, om, sz) \<and>
           assign_inv h root N (length queue) (queue, om, sz)"
  using flatten_assign_correct[OF d assign_inv_initial[OF d]]
  by (auto simp: flatten_offsets_def)

lemma off_nth:
  assumes "distinct q" "i < length q"
  shows "off h q (q ! i) = sum_list (map (cc h) (take i q))"
proof -
  have "takeWhile (\<lambda>x. x \<noteq> q ! i) q = take i q"
  proof (rule takeWhile_eq_take_P_nth)
    fix i' assume "i' < i" "i' < length q"
    then show "q ! i' \<noteq> q ! i" using assms by (simp add: nth_eq_iff_index_eq)
  next
    show "\<not> q ! i \<noteq> q ! i" by simp
  qed
  then show ?thesis by (simp add: off_def)
qed

lemma sum_take_mono:
  assumes "i \<le> i'"
  shows "sum_list (map (cc h) (take i q)) \<le> sum_list (map (cc h) (take i' q))"
proof -
  have "take i' q = take i q @ take (i' - i) (drop i q)"
    using take_add[of i "i' - i" q] assms by simp
  then show ?thesis using sum_cc_nonneg[of h "take (i' - i) (drop i q)"] by simp
qed

lemma sum_take_le:
  "sum_list (map (cc h) (take i q)) \<le> sum_list (map (cc h) q)"
  using sum_take_mono[of i "length q" h q] by (cases "i \<le> length q") simp_all

lemma off_order:
  assumes "distinct q" "i < i'" "i' < length q"
  shows "off h q (q ! i) + cc h (q ! i) \<le> off h q (q ! i')"
proof -
  have "sum_list (map (cc h) (take (Suc i) q)) \<le> sum_list (map (cc h) (take i' q))"
    using assms(2) by (intro sum_take_mono) simp
  moreover have "sum_list (map (cc h) (take (Suc i) q)) =
        sum_list (map (cc h) (take i q)) + cc h (q ! i)"
    using assms by (simp add: take_Suc_conv_app_nth)
  ultimately show ?thesis using off_nth[OF assms(1), of i h] off_nth[OF assms(1,3), of h] assms
    by simp
qed

lemma off_top:
  assumes "distinct q" "i < length q"
  shows "off h q (q ! i) + cc h (q ! i) \<le> sum_list (map (cc h) q)"
proof -
  have "sum_list (map (cc h) (take (Suc i) q)) =
        sum_list (map (cc h) (take i q)) + cc h (q ! i)"
    using assms by (simp add: take_Suc_conv_app_nth)
  then show ?thesis using off_nth[OF assms, of h] sum_take_le[of h "Suc i" q] by simp
qed

lemma off_disjoint:
  assumes "distinct q" "n \<in> set q" "n' \<in> set q" "n \<noteq> n'"
  shows "off h q n + cc h n \<le> off h q n' \<or> off h q n' + cc h n' \<le> off h q n"
proof -
  obtain i i' where i: "i < length q" "q ! i = n" "i' < length q" "q ! i' = n'"
    using assms(2,3) by (auto simp: in_set_conv_nth)
  have "i \<noteq> i'" using i assms(4) by auto
  then consider "i < i'" | "i' < i" by linarith
  then show ?thesis
    using off_order[OF assms(1) _ i(3), of i h] off_order[OF assms(1) _ i(1), of i' h] i
    by cases auto
qed


text \<open>Every slot of a block belongs to an existing edge.\<close>

lemma slot_cover:
  assumes len: "length (children (cells h n)) = ALPHABET_SIZE"
    and s: "0 \<le> s" "s < cc h n"
  shows "\<exists>j<ALPHABET_SIZE. child h n j \<noteq> 0 \<and> slot_of h n j = s"
proof -
  have "\<exists>j<m. child h n j \<noteq> 0 \<and> slot_of h n j = s"
    if "s < slot_of h n m" "m \<le> ALPHABET_SIZE" for m
    using that
  proof (induction m)
    case 0
    then show ?case using s(1) by (simp add: slot_of_0)
  next
    case (Suc m)
    have m: "m < ALPHABET_SIZE" using Suc.prems by simp
    show ?case
    proof (cases "s < slot_of h n m")
      case True
      then show ?thesis using Suc.IH m by (auto simp: less_Suc_eq)
    next
      case False
      then have "child h n m \<noteq> 0 \<and> slot_of h n m = s"
        using Suc.prems(1) slot_of_Suc[OF len m] by (auto split: if_splits)
      then show ?thesis by blast
    qed
  qed
  from this[of ALPHABET_SIZE] show ?thesis
    using s(2) slot_of_end[OF len] by simp
qed

lemma assign_invD:
  assumes "assign_inv h root N qf (queue, om, sz)"
  shows "qf \<le> length queue" "distinct queue" "set queue \<subseteq> N" "queue \<noteq> []" "hd queue = root"
    "\<And>n. n \<in> set queue \<Longrightarrow> offset_map_get om n = off h queue n"
    "\<And>n. n \<notin> set queue \<Longrightarrow>
           \<not> assigned om n \<or> (offset_map_get om n = 0 \<and> cc h n = 0 \<and> n \<in> N)"
    "\<And>n. n \<in> set queue \<Longrightarrow> n = root \<or> 0 < cc h n"
    "sz = sum_list (map (cc h) queue)"
    "\<And>k j. k < qf \<Longrightarrow> j < ALPHABET_SIZE \<Longrightarrow> child h (queue ! k) j \<noteq> 0 \<Longrightarrow>
           assigned om (child h (queue ! k) j)"
    "\<And>k. k < length queue \<Longrightarrow> k = 0 \<or>
           (\<exists>k'<k. \<exists>j<ALPHABET_SIZE. child h (queue ! k') j = queue ! k)"
  using assms unfolding assign_inv_def by simp_all

text \<open>What phase 1 leaves behind.\<close>

lemma assigned_children:
  assumes A: "assign_inv h root N (length queue) (queue, om, sz)"
    and n: "n \<in> set queue" and j: "j < ALPHABET_SIZE" and c: "child h n j \<noteq> 0"
  shows "assigned om (child h n j)"
    and "0 < cc h (child h n j) \<Longrightarrow> child h n j \<in> set queue"
    and "cc h (child h n j) = 0 \<Longrightarrow> child h n j \<noteq> root \<Longrightarrow> offset_map_get om (child h n j) = 0"
proof -
  obtain k where k: "k < length queue" "queue ! k = n"
    using n by (auto simp: in_set_conv_nth)
  show a: "assigned om (child h n j)"
    using assign_invD(10)[OF A k(1) j] c k(2) by simp
  show "child h n j \<in> set queue" if "0 < cc h (child h n j)"
    using assign_invD(7)[OF A, of "child h n j"] a that by auto
  show "offset_map_get om (child h n j) = 0"
    if z: "cc h (child h n j) = 0" and nr: "child h n j \<noteq> root"
  proof (cases "child h n j \<in> set queue")
    case True
    then show ?thesis using assign_invD(8)[OF A True] z nr by simp
  next
    case False
    then show ?thesis using assign_invD(7)[OF A False] a by simp
  qed
qed

lemma blocks_disjoint:
  assumes A: "assign_inv h root N qf (queue, om, sz)"
    and n: "n \<in> set queue" "n' \<in> set queue" "n \<noteq> n'"
  shows "\<not> (in_block h om n k \<and> in_block h om n' k)"
  using off_disjoint[OF assign_invD(2)[OF A] n, of h]
    assign_invD(6)[OF A n(1)] assign_invD(6)[OF A n(2)]
  by (auto simp: in_block_def)

lemma slot_in_block:
  assumes "length (children (cells h n)) = ALPHABET_SIZE" "j < ALPHABET_SIZE" "child h n j \<noteq> 0"
  shows "in_block h om n (offset_map_get om n + slot_of h n j)"
  using slot_of_less[OF assms] by (simp add: in_block_def)

text \<open>One step of the inner loop of phase 2.\<close>

lemma emit_child_eq:
  "emit_child h om node j (slot_of h node j, dat, vis, queue) =
     (if child h node j \<noteq> 0 then
        (slot_of h node j + 1,
         dat(offset_map_get om node + slot_of h node j := entry_of h om node j),
         if \<not> assigned vis (child h node j) \<and> 0 < cc h (child h node j)
         then offset_map_put vis (child h node j) 1 else vis,
         if \<not> assigned vis (child h node j) \<and> 0 < cc h (child h node j)
         then queue @ [child h node j] else queue)
      else (slot_of h node j, dat, vis, queue))"
  by (simp add: emit_child_def Let_def entry_of_def cc_def assigned_def)

lemma emit_fold_inv:
  assumes d: "dawg h root N L"
    and A: "assign_inv h root N (length queue1) (queue1, om, sz)"
    and node: "node \<in> set queue1" and Q: "queue_ok root queue1 vis0 queue0"
  shows "j \<le> ALPHABET_SIZE \<Longrightarrow>
     (\<exists>dat vis queue.
        fold (emit_child h om node) [0..<j] (0, dat0, vis0, queue0) =
          (slot_of h node j, dat, vis, queue) \<and>
        queue_ok root queue1 vis queue \<and> (\<exists>ext. queue = queue0 @ ext) \<and>
        (\<forall>j'<j. child h node j' \<noteq> 0 \<longrightarrow>
           dat (offset_map_get om node + slot_of h node j') = entry_of h om node j') \<and>
        (\<forall>k. \<not> in_block h om node k \<longrightarrow> dat k = dat0 k) \<and>
        (\<forall>j'<j. child h node j' \<noteq> 0 \<and> 0 < cc h (child h node j') \<longrightarrow>
           child h node j' \<in> set queue))"
proof (induction j)
  case 0
  then show ?case using Q by (simp add: slot_of_0)
next
  case (Suc j)
  have j: "j < ALPHABET_SIZE" using Suc.prems by simp
  have len: "length (children (cells h node)) = ALPHABET_SIZE" using dawgD(7)[OF d] .
  obtain dat vis queue where s:
    "fold (emit_child h om node) [0..<j] (0, dat0, vis0, queue0) =
       (slot_of h node j, dat, vis, queue)"
    "queue_ok root queue1 vis queue" "\<exists>ext. queue = queue0 @ ext"
    "\<forall>j'<j. child h node j' \<noteq> 0 \<longrightarrow>
           dat (offset_map_get om node + slot_of h node j') = entry_of h om node j'"
    "\<forall>k. \<not> in_block h om node k \<longrightarrow> dat k = dat0 k"
    "\<forall>j'<j. child h node j' \<noteq> 0 \<and> 0 < cc h (child h node j') \<longrightarrow>
           child h node j' \<in> set queue"
    using Suc.IH j by auto
  have f: "fold (emit_child h om node) [0..<Suc j] (0, dat0, vis0, queue0) =
        emit_child h om node j (slot_of h node j, dat, vis, queue)"
    using s(1) by simp
  show ?case
  proof (cases "child h node j = 0")
    case True
    have sl: "slot_of h node (Suc j) = slot_of h node j"
      using slot_of_Suc[OF len j] True by simp
    have "fold (emit_child h om node) [0..<Suc j] (0, dat0, vis0, queue0) =
        (slot_of h node (Suc j), dat, vis, queue)"
      using f True sl by (simp add: emit_child_eq)
    moreover have "\<forall>j'<Suc j. child h node j' \<noteq> 0 \<longrightarrow>
           dat (offset_map_get om node + slot_of h node j') = entry_of h om node j'"
      using s(4) True by (auto simp: less_Suc_eq)
    moreover have "\<forall>j'<Suc j. child h node j' \<noteq> 0 \<and> 0 < cc h (child h node j') \<longrightarrow>
           child h node j' \<in> set queue"
      using s(6) True by (auto simp: less_Suc_eq)
    ultimately show ?thesis using s(2,3,5) by blast
  next
    case False
    let ?c = "child h node j"
    let ?new = "\<not> assigned vis ?c \<and> 0 < cc h ?c"
    let ?dat = "dat(offset_map_get om node + slot_of h node j := entry_of h om node j)"
    let ?vis = "if ?new then offset_map_put vis ?c 1 else vis"
    let ?queue = "if ?new then queue @ [?c] else queue"
    have sl: "slot_of h node (Suc j) = slot_of h node j + 1"
      using slot_of_Suc[OF len j] False by simp
    have f': "fold (emit_child h om node) [0..<Suc j] (0, dat0, vis0, queue0) =
        (slot_of h node (Suc j), ?dat, ?vis, ?queue)"
      using f False sl by (simp add: emit_child_eq)
    have Qd: "distinct queue" "set queue \<subseteq> set queue1" "root \<in> set queue"
      "\<And>n. assigned vis n \<longleftrightarrow> n \<in> set queue"
      using s(2) unfolding queue_ok_def by simp_all
    have cq1: "0 < cc h ?c \<Longrightarrow> ?c \<in> set queue1"
      using assigned_children(2)[OF A node j False] .
    have q': "queue_ok root queue1 ?vis ?queue"
    proof (cases ?new)
      case True
      have "assigned (offset_map_put vis ?c 1) n \<longleftrightarrow> n = ?c \<or> assigned vis n" for n
        by (simp add: assigned_def offset_map_get_put)
      then show ?thesis
        using True Qd cq1 unfolding queue_ok_def by auto
    next
      case False
      then show ?thesis using s(2) by auto
    qed
    have ext: "\<exists>ext. ?queue = queue0 @ ext" using s(3) by auto
    have w: "\<forall>j'<Suc j. child h node j' \<noteq> 0 \<longrightarrow>
           ?dat (offset_map_get om node + slot_of h node j') = entry_of h om node j'"
    proof (intro allI impI)
      fix j' assume j': "j' < Suc j" and c': "child h node j' \<noteq> 0"
      show "?dat (offset_map_get om node + slot_of h node j') = entry_of h om node j'"
      proof (cases "j' = j")
        case True then show ?thesis by simp
      next
        case ne: False
        then have lt: "j' < j" using j' by simp
        then have "j' < ALPHABET_SIZE" using j by simp
        then have "slot_of h node j' \<noteq> slot_of h node j"
          using slot_of_inj[OF len _ c' j False] ne by blast
        then show ?thesis using s(4) lt c' by simp
      qed
    qed
    have o: "\<forall>k. \<not> in_block h om node k \<longrightarrow> ?dat k = dat0 k"
      using s(5) slot_in_block[OF len j False, of om] by auto
    have e: "\<forall>j'<Suc j. child h node j' \<noteq> 0 \<and> 0 < cc h (child h node j') \<longrightarrow>
           child h node j' \<in> set ?queue"
      using s(6) Qd(4)[of ?c] by (auto simp: less_Suc_eq)
    show ?thesis using f' q' ext w o e by blast
  qed
qed

lemma fill_invD:
  assumes "fill_inv h root queue1 om qf (dat, vis, queue)"
  shows "qf \<le> length queue" "queue_ok root queue1 vis queue"
    "\<And>k. k < qf \<Longrightarrow> block_written h om dat (queue ! k)"
    "\<And>k j. k < qf \<Longrightarrow> j < ALPHABET_SIZE \<Longrightarrow> child h (queue ! k) j \<noteq> 0 \<Longrightarrow>
        0 < cc h (child h (queue ! k) j) \<Longrightarrow> child h (queue ! k) j \<in> set queue"
  using assms unfolding fill_inv_def queue_ok_def by simp_all

lemma fill_invI:
  assumes "qf \<le> length queue" "queue_ok root queue1 vis queue"
    "\<And>k. k < qf \<Longrightarrow> block_written h om dat (queue ! k)"
    "\<And>k j. k < qf \<Longrightarrow> j < ALPHABET_SIZE \<Longrightarrow> child h (queue ! k) j \<noteq> 0 \<Longrightarrow>
        0 < cc h (child h (queue ! k) j) \<Longrightarrow> child h (queue ! k) j \<in> set queue"
  shows "fill_inv h root queue1 om qf (dat, vis, queue)"
  using assms unfolding fill_inv_def queue_ok_def by simp

lemma flatten_fill_unfold:
  "flatten_fill h om q_front (dat, vis, queue) =
     (if q_front < length queue
      then flatten_fill h om (Suc q_front)
             (snd (fold (emit_child h om (queue ! q_front)) [0..<ALPHABET_SIZE]
                     (0, dat, vis, queue)))
      else Some (dat, vis, queue))"
  by (subst flatten_fill.simps) simp

text \<open>Phase 2 ends; it writes the block of every node it takes out and nothing else.\<close>

lemma flatten_fill_correct:
  assumes d: "dawg h root N L"
    and A: "assign_inv h root N (length queue1) (queue1, om, sz)"
  shows "fill_inv h root queue1 om qf (dat, vis, queue) \<Longrightarrow>
     \<exists>dat' vis' queue'. flatten_fill h om qf (dat, vis, queue) = Some (dat', vis', queue') \<and>
        fill_inv h root queue1 om (length queue') (dat', vis', queue') \<and>
        (\<forall>k. (\<forall>n\<in>set queue1. \<not> in_block h om n k) \<longrightarrow> dat' k = dat k)"
proof (induction "length queue1 - qf" arbitrary: qf dat vis queue rule: less_induct)
  case less
  note I = fill_invD[OF less.prems]
  have Q: "distinct queue" "set queue \<subseteq> set queue1"
    using I(2) unfolding queue_ok_def by simp_all
  have len: "length queue \<le> length queue1"
    using Q assign_invD(2)[OF A] by (metis card_mono distinct_card List.finite_set)
  show ?case
  proof (cases "qf < length queue")
    case False
    then have "qf = length queue" using I(1) by simp
    then show ?thesis
      using less.prems by (subst flatten_fill_unfold) simp
  next
    case True
    let ?node = "queue ! qf"
    have node: "?node \<in> set queue1" using True Q(2) by (auto simp: subset_iff)
    have lenc: "length (children (cells h a)) = ALPHABET_SIZE" for a using dawgD(7)[OF d] .
    obtain dat1 vis1 queue2 where f:
      "fold (emit_child h om ?node) [0..<ALPHABET_SIZE] (0, dat, vis, queue) =
         (slot_of h ?node ALPHABET_SIZE, dat1, vis1, queue2)"
      "queue_ok root queue1 vis1 queue2" "\<exists>ext. queue2 = queue @ ext"
      "\<forall>j'<ALPHABET_SIZE. child h ?node j' \<noteq> 0 \<longrightarrow>
         dat1 (offset_map_get om ?node + slot_of h ?node j') = entry_of h om ?node j'"
      "\<forall>k. \<not> in_block h om ?node k \<longrightarrow> dat1 k = dat k"
      "\<forall>j'<ALPHABET_SIZE. child h ?node j' \<noteq> 0 \<and> 0 < cc h (child h ?node j') \<longrightarrow>
         child h ?node j' \<in> set queue2"
      using emit_fold_inv[OF d A node I(2), of ALPHABET_SIZE dat] by auto
    obtain ext where ext: "queue2 = queue @ ext" using f(3) by blast
    have nth: "queue2 ! k = queue ! k" if "k \<le> qf" for k
      using that True by (simp add: ext nth_append)
    have bw: "block_written h om dat1 (queue2 ! k)" if k: "k < Suc qf" for k
    proof (cases "k = qf")
      case True
      then show ?thesis using f(4) nth[of qf] by (simp add: block_written_def)
    next
      case False
      then have kq: "k < qf" using k by simp
      let ?n = "queue ! k"
      have nn: "?n \<noteq> ?node"
        using Q(1) kq True by (simp add: nth_eq_iff_index_eq)
      have n1: "?n \<in> set queue1" using kq True Q(2) by (auto simp: subset_iff)
      have "dat1 (offset_map_get om ?n + slot_of h ?n j) = entry_of h om ?n j"
        if j: "j < ALPHABET_SIZE" and c: "child h ?n j \<noteq> 0" for j
      proof -
        have "in_block h om ?n (offset_map_get om ?n + slot_of h ?n j)"
          using slot_in_block[OF lenc j c] .
        then have "\<not> in_block h om ?node (offset_map_get om ?n + slot_of h ?n j)"
          using blocks_disjoint[OF A n1 node nn] by blast
        then have "dat1 (offset_map_get om ?n + slot_of h ?n j) =
              dat (offset_map_get om ?n + slot_of h ?n j)"
          using f(5) by simp
        then show ?thesis using I(3)[OF kq] j c by (simp add: block_written_def)
      qed
      then show ?thesis using nth[of k] kq by (simp add: block_written_def)
    qed
    have cl: "child h (queue2 ! k) j \<in> set queue2"
      if "k < Suc qf" "j < ALPHABET_SIZE" "child h (queue2 ! k) j \<noteq> 0"
        "0 < cc h (child h (queue2 ! k) j)" for k j
    proof (cases "k = qf")
      case True
      then show ?thesis using f(6) that nth[of qf] by simp
    next
      case False
      then have kq: "k < qf" using that(1) by simp
      then have "child h (queue ! k) j \<in> set queue"
        using I(4)[OF kq that(2)] that(3,4) nth[of k] by simp
      then show ?thesis using nth[of k] kq by (simp add: ext)
    qed
    have inv1: "fill_inv h root queue1 om (Suc qf) (dat1, vis1, queue2)"
      using True f(2) bw cl by (intro fill_invI) (simp_all add: ext)
    have "length queue1 - Suc qf < length queue1 - qf" using True len by simp
    from less.hyps[OF this inv1]
    obtain dat' vis' queue' where r:
      "flatten_fill h om (Suc qf) (dat1, vis1, queue2) = Some (dat', vis', queue')"
      "fill_inv h root queue1 om (length queue') (dat', vis', queue')"
      "\<forall>k. (\<forall>n\<in>set queue1. \<not> in_block h om n k) \<longrightarrow> dat' k = dat1 k"
      by blast
    have run: "flatten_fill h om qf (dat, vis, queue) = Some (dat', vis', queue')"
      using r(1) True f(1) by (subst flatten_fill_unfold) simp
    have "\<forall>k. (\<forall>n\<in>set queue1. \<not> in_block h om n k) \<longrightarrow> dat' k = dat k"
      using r(3) f(5) node by auto
    then show ?thesis using run r(2) by blast
  qed
qed

lemma fill_inv_initial:
  assumes A: "assign_inv h root N qf (queue1, om, sz)"
  shows "fill_inv h root queue1 om 0 (dat, offset_map_put offset_map_create root 1, [root])"
proof -
  have "root \<in> set queue1"
    using assign_invD(4,5)[OF A] by (cases queue1) auto
  moreover have "assigned (offset_map_put offset_map_create root 1) n \<longleftrightarrow> n = root" for n
    by (simp add: assigned_def offset_map_get_put offset_map_get_create)
  ultimately show ?thesis
    by (intro fill_invI) (simp_all add: queue_ok_def)
qed

text \<open>Phase 2 takes out every node that phase 1 has queued.\<close>

lemma fill_covers:
  assumes d: "dawg h root N L"
    and A: "assign_inv h root N (length queue1) (queue1, om, sz)"
    and F: "fill_inv h root queue1 om (length queue) (dat, vis, queue)"
  shows "k < length queue1 \<Longrightarrow> queue1 ! k \<in> set queue"
proof (induction k rule: less_induct)
  case (less k)
  have root: "root \<in> set queue" using fill_invD(2)[OF F] by (simp add: queue_ok_def)
  have hd: "queue1 ! 0 = root"
    using assign_invD(4,5)[OF A] by (cases queue1) auto
  show ?case
  proof (cases "k = 0")
    case True
    then show ?thesis using root hd by simp
  next
    case False
    then obtain k' j where p: "k' < k" "j < ALPHABET_SIZE" "child h (queue1 ! k') j = queue1 ! k"
      using assign_invD(11)[OF A less.prems] by blast
    have "queue1 ! k' \<in> set queue" using less.IH[OF p(1)] p(1) less.prems by simp
    then obtain i where i: "i < length queue" "queue ! i = queue1 ! k'"
      by (auto simp: in_set_conv_nth)
    have kn: "queue1 ! k \<noteq> root"
      using assign_invD(2)[OF A] hd False less.prems
      by (metis length_greater_0_conv assign_invD(4)[OF A] nth_eq_iff_index_eq)
    have "queue1 ! k \<in> set queue1" using less.prems by simp
    then have pos: "0 < cc h (queue1 ! k)" using assign_invD(8)[OF A] kn by blast
    have "queue1 ! k \<in> N" using assign_invD(3)[OF A] less.prems by auto
    then have "queue1 ! k \<noteq> 0" using dawgD(4)[OF d] by metis
    then show ?thesis
      using fill_invD(4)[OF F i(1) p(2)] i(2) p(3) pos by simp
  qed
qed

text \<open>The languages of the root and of a node below it differ when the word set is finite.\<close>

lemma rl_root_differs:
  assumes s: "start_inv h1 root K T" and fin: "finite T"
    and c: "c \<in> {root<..<brk h1}"
  shows "rl K T root \<noteq> rl K T c"
proof
  assume eq: "rl K T root = rl K T c"
  have t: "trie_inv h1 root K (insert [] (prefixes T)) T" using start_trie[OF s] .
  have Kr: "K root = []" and inj: "inj_on K {root..<brk h1}"
    and im: "K ` {root..<brk h1} = insert [] (prefixes T)" and rb: "root < brk h1"
    using t unfolding trie_inv_def by simp_all
  have cS: "c \<in> {root..<brk h1}" and rS: "root \<in> {root..<brk h1}" using c rb by simp_all
  have "K c \<noteq> K root" using inj_onD[OF inj _ cS rS] c by auto
  then have pne: "K c \<noteq> []" using Kr by simp
  have "K c \<in> insert [] (prefixes T)" using im cS by blast
  then obtain u where u: "K c @ u \<in> T" using pne by (auto simp: prefixes_def)
  let ?R = "rl K T root"
  have R: "?R = {u. u \<noteq> [] \<and> u \<in> T}" by (simp add: rl_def Kr)
  have finR: "finite ?R" unfolding R using fin by simp
  have "K c @ u \<in> ?R" using u pne by (simp add: R)
  then have ne: "length ` ?R \<noteq> {}" by blast
  have "Max (length ` ?R) \<in> length ` ?R" using finR ne by (intro Max_in) simp_all
  then obtain w where w: "w \<in> ?R" "length w = Max (length ` ?R)" by auto
  have "w \<in> rl K T c" using w(1) eq by simp
  then have "K c @ w \<in> T" by (simp add: rl_def)
  then have "K c @ w \<in> ?R" using pne by (simp add: R)
  then have "length (K c @ w) \<in> length ` ?R" by (rule imageI)
  then have "length (K c @ w) \<le> Max (length ` ?R)" using finR by (intro Max_ge) simp_all
  then show False using w(2) pne by simp
qed

lemma canon_set_finite:
  assumes "cinv h1 root K T h m D"
  shows "finite (canon_set m)"
proof -
  have "canon_set m \<subseteq> {root<..<brk h1}" using cinv_canon(1,2)[OF assms] by blast
  then show ?thesis by (rule finite_subset) simp
qed

text \<open>The compressed graph is a deterministic automaton without two nodes for one language.\<close>

lemma dawg_inv_dawg:
  assumes d: "dawg_inv T root h1 h m K" and fin: "finite T"
  shows "dawg h root (insert root (canon_set m)) (rl K T)"
proof -
  have s: "start_inv h1 root K T" and ci: "cinv h1 root K T h m {root<..<brk h1}"
    and rr: "\<forall>j<ALPHABET_SIZE. rewired h1 K T h (canon_set m) root j"
    using d unfolding dawg_inv_def by simp_all
  note g = dawg_inv_graph[OF d]
  have CS: "canon_set m \<subseteq> {root<..<brk h1}" using cinv_canon(1)[OF ci] .
  have r0: "0 < root" using start_trie[OF s] unfolding trie_inv_def by simp
  have z: "0 \<notin> insert root (canon_set m)" using r0 CS by auto
  have inj: "inj_on (rl K T) (insert root (canon_set m))"
  proof (rule inj_onI)
    fix x y assume x: "x \<in> insert root (canon_set m)" and y: "y \<in> insert root (canon_set m)"
      and e: "rl K T x = rl K T y"
    show "x = y"
    proof (cases "x = root")
      case True
      show ?thesis
      proof (cases "y = root")
        case True
        then show ?thesis using \<open>x = root\<close> by simp
      next
        case False
        then have "y \<in> {root<..<brk h1}" using y CS by auto
        then show ?thesis using rl_root_differs[OF s fin] e \<open>x = root\<close> by metis
      qed
    next
      case False
      then have xc: "x \<in> canon_set m" using x by simp
      show ?thesis
      proof (cases "y = root")
        case True
        have "x \<in> {root<..<brk h1}" using xc CS by auto
        then show ?thesis using rl_root_differs[OF s fin] e True by metis
      next
        case False
        then have "y \<in> canon_set m" using y by simp
        then show ?thesis using inj_onD[OF g(4) e xc] by simp
      qed
    qed
  qed
  have nr: "child h n j \<noteq> root" if n: "n \<in> insert root (canon_set m)" and j: "j < ALPHABET_SIZE"
    for n j
  proof (cases "child h n j = 0")
    case True
    then show ?thesis using r0 by simp
  next
    case False
    have "rewired h1 K T h (canon_set m) n j"
      using n j rr cinv_canon(5)[OF ci] by auto
    then have "child h n j \<in> canon_set m" using False by (simp add: rewired_def)
    then show ?thesis using g(3) by auto
  qed
  show ?thesis
    unfolding dawg_def
    using g(1) canon_set_finite[OF ci] z inj nr cinv_lengths(1)[OF ci] by simp
qed

lemma reach_dawg_closed:
  assumes "dawg h root N L"
  shows "reach h root \<subseteq> N"
proof
  fix n assume "n \<in> reach h root"
  then show "n \<in> N"
  proof induction
    case reach_root
    then show ?case using dawgD(2)[OF assms] .
  next
    case (reach_child n j)
    then show ?case using dawg_child[OF assms] by simp
  qed
qed

text \<open>
  Flattening a deterministic automaton always returns.  The image has one entry for every
  edge of a node with children that the root reaches, at the offset of the node plus the
  slot of the edge.
\<close>

lemma dawg_flatten_correct:
  assumes d: "dawg h root N L"
  shows "\<exists>queue om pd. dawg_flatten root h = Some pd \<and> flat_ok h root N queue om pd"
proof -
  obtain queue om sz where a: "flatten_offsets root h = Some (queue, om, sz)"
    "assign_inv h root N (length queue) (queue, om, sz)"
    using flatten_offsets_correct[OF d] by blast
  define pd0 where "pd0 = (packed_dawg_create 500000)\<lparr>size := sz\<rparr>"
  define pd1 where "pd1 = (if size pd0 > capacity pd0
      then pd0\<lparr>capacity := size pd0 * 2, data := (\<lambda>_. 0)\<rparr> else pd0)"
  have sz1: "size pd1 = sz" by (simp add: pd1_def pd0_def)
  obtain dat vis queue' where f:
    "flatten_fill h om 0 (data pd1, offset_map_put offset_map_create root 1, [root]) =
       Some (dat, vis, queue')"
    "fill_inv h root queue om (length queue') (dat, vis, queue')"
    using flatten_fill_correct[OF d a(2) fill_inv_initial[OF a(2)], of "data pd1"] by blast
  have "dawg_flatten root h =
      map_option (\<lambda>(dat, vis, queue). pd1\<lparr>data := dat\<rparr>)
        (flatten_fill h om 0 (data pd1, offset_map_put offset_map_create root 1, [root]))"
    unfolding dawg_flatten_def a(1) pd1_def pd0_def by (simp add: Let_def)
  then have run: "dawg_flatten root h = Some (pd1\<lparr>data := dat\<rparr>)"
    by (simp only: f(1) option.map prod.case)
  have "block_written h om dat n" if nq: "n \<in> set queue" for n
  proof -
    obtain k where k: "k < length queue" "queue ! k = n"
      using nq by (auto simp: in_set_conv_nth)
    then have "n \<in> set queue'" using fill_covers[OF d a(2) f(2) k(1)] by simp
    then obtain i where "i < length queue'" "queue' ! i = n" by (auto simp: in_set_conv_nth)
    then show ?thesis using fill_invD(3)[OF f(2)] by auto
  qed
  then have "flat_ok h root N queue om (pd1\<lparr>data := dat\<rparr>)"
    using a sz1 by (simp add: flat_ok_def)
  then show ?thesis using run by blast
qed

text \<open>The queue of phase 1 holds the root and the nodes with children that it reaches.\<close>

lemma assign_reach:
  assumes d: "dawg h root N L"
    and A: "assign_inv h root N (length queue) (queue, om, sz)"
  shows "set queue = {n \<in> reach h root. n = root \<or> 0 < cc h n}"
proof (intro set_eqI iffI)
  fix n assume n: "n \<in> set queue"
  have hd: "queue ! 0 = root" using assign_invD(4,5)[OF A] by (cases queue) auto
  have "k < length queue \<Longrightarrow> queue ! k \<in> reach h root" for k
  proof (induction k rule: less_induct)
    case (less k)
    show ?case
    proof (cases "k = 0")
      case True
      then show ?thesis using hd by (simp add: reach.reach_root)
    next
      case False
      then obtain k' j where p: "k' < k" "j < ALPHABET_SIZE" "child h (queue ! k') j = queue ! k"
        using assign_invD(11)[OF A less.prems] by blast
      have r: "queue ! k' \<in> reach h root" using less.IH[OF p(1)] p(1) less.prems by simp
      have "queue ! k \<in> N" using assign_invD(3)[OF A] less.prems by auto
      then have "queue ! k \<noteq> 0" using dawgD(4)[OF d] by metis
      then show ?thesis using reach.reach_child[OF r p(2)] p(3) by simp
    qed
  qed
  then have "n \<in> reach h root" using n by (auto simp: in_set_conv_nth)
  then show "n \<in> {n \<in> reach h root. n = root \<or> 0 < cc h n}"
    using assign_invD(8)[OF A n] by simp
next
  fix n assume "n \<in> {n \<in> reach h root. n = root \<or> 0 < cc h n}"
  then have r: "n \<in> reach h root" and c: "n = root \<or> 0 < cc h n" by simp_all
  have root: "root \<in> set queue" using assign_invD(4,5)[OF A] by (cases queue) auto
  from r have "n = root \<or> 0 < cc h n \<longrightarrow> n \<in> set queue"
  proof induction
    case reach_root
    then show ?case using root by simp
  next
    case (reach_child n j)
    have nq: "n \<in> set queue"
    proof -
      have "0 < cc h n"
      proof -
        have "child h n j \<in> set (children (cells h n))"
          using reach_child(2) dawgD(7)[OF d, of n] by (simp add: child_def)
        then have "filter (\<lambda>p. p \<noteq> 0) (children (cells h n)) \<noteq> []"
          using reach_child(3) by (auto simp: filter_empty_conv)
        then show ?thesis by (simp add: cc_def count_children_def)
      qed
      then show ?thesis using reach_child.IH by simp
    qed
    show ?case
    proof
      assume "child h n j = root \<or> 0 < cc h (child h n j)"
      moreover have "child h n j \<noteq> root"
        using dawgD(6)[OF d _ reach_child(2)] reach_dawg_closed[OF d] reach_child(1) by blast
      ultimately show "child h n j \<in> set queue"
        using assigned_children(2)[OF A nq reach_child(2,3)] by simp
    qed
  qed
  then show "n \<in> set queue" using c by simp
qed

section \<open>Two heaps with the same automaton\<close>

lemma simD:
  assumes "sim h h' R"
  shows "\<And>n n' n''. R n n' \<Longrightarrow> R n n'' \<Longrightarrow> n' = n''"
    "\<And>n n' n''. R n n'' \<Longrightarrow> R n' n'' \<Longrightarrow> n = n'"
    "\<And>a. length (children (cells h a)) = ALPHABET_SIZE"
    "\<And>a. length (children (cells h' a)) = ALPHABET_SIZE"
    "\<And>n n' j. R n n' \<Longrightarrow> j < ALPHABET_SIZE \<Longrightarrow> child h n j = 0 \<longleftrightarrow> child h' n' j = 0"
    "\<And>n n' j. R n n' \<Longrightarrow> j < ALPHABET_SIZE \<Longrightarrow> child h n j \<noteq> 0 \<Longrightarrow>
        R (child h n j) (child h' n' j)"
    "\<And>n n' j. R n n' \<Longrightarrow> j < ALPHABET_SIZE \<Longrightarrow>
        child_is_terminal (cells h n) ! j = child_is_terminal (cells h' n') ! j"
  using assms unfolding sim_def by blast+

lemma sim_slot_of:
  assumes s: "sim h h' R" and r: "R n n'"
  shows "j \<le> ALPHABET_SIZE \<Longrightarrow> slot_of h n j = slot_of h' n' j"
proof (induction j)
  case 0
  then show ?case by (simp add: slot_of_0)
next
  case (Suc j)
  then have j: "j < ALPHABET_SIZE" by simp
  show ?case
    using Suc slot_of_Suc[OF simD(3)[OF s] j, of n] slot_of_Suc[OF simD(4)[OF s] j, of n']
      simD(5)[OF s r j] by simp
qed

lemma sim_cc:
  assumes s: "sim h h' R" and r: "R n n'"
  shows "cc h n = cc h' n'"
  using sim_slot_of[OF s r, of ALPHABET_SIZE] slot_of_end[OF simD(3)[OF s], of n]
    slot_of_end[OF simD(4)[OF s], of n'] by simp

lemma om_rel_put:
  assumes s: "sim h h' R" and o: "om_rel R om om'" and r: "R c c'"
  shows "om_rel R (offset_map_put om c v) (offset_map_put om' c' v)"
  unfolding om_rel_def
proof (intro allI impI)
  fix n n' assume nn: "R n n'"
  have "n = c \<longleftrightarrow> n' = c'" using simD(1,2)[OF s] r nn by blast
  then show "offset_map_get (offset_map_put om c v) n = offset_map_get (offset_map_put om' c' v) n'"
    using o nn by (simp add: offset_map_get_put om_rel_def)
qed

lemma assign_child_sim:
  assumes s: "sim h h' R" and r: "R node node'" and i: "i < ALPHABET_SIZE"
    and a: "assign_rel R st st'"
  shows "assign_rel R (assign_child h node i st) (assign_child h' node' i st')"
proof -
  obtain queue om sz where st: "st = (queue, om, sz)" by (cases st) auto
  obtain queue' om' where st': "st' = (queue', om', sz)"
    using a by (cases st') (auto simp: assign_rel_def st)
  have q: "list_all2 R queue queue'" and o: "om_rel R om om'"
    using a by (simp_all add: assign_rel_def st st')
  show ?thesis
  proof (cases "child h node i = 0")
    case True
    then have "child h' node' i = 0" using simD(5)[OF s r i] by simp
    then show ?thesis using True a by (simp add: assign_child_def st st')
  next
    case False
    then have c': "child h' node' i \<noteq> 0" using simD(5)[OF s r i] by simp
    have rc: "R (child h node i) (child h' node' i)" using simD(6)[OF s r i False] .
    have g: "offset_map_get om (child h node i) = offset_map_get om' (child h' node' i)"
      using o rc by (simp add: om_rel_def)
    have cc: "count_children (cells h (child h node i)) =
              count_children (cells h' (child h' node' i))"
      using sim_cc[OF s rc] by (simp add: cc_def)
    have q1: "list_all2 R (queue @ [child h node i]) (queue' @ [child h' node' i])"
      using q rc by (simp add: list_all2_appendI)
    show ?thesis
      using False c' g cc q q1 o om_rel_put[OF s o rc]
      by (simp add: assign_child_def st st' assign_rel_def Let_def)
  qed
qed

lemma assign_fold_sim:
  assumes s: "sim h h' R" and r: "R node node'"
  shows "\<forall>i\<in>set js. i < ALPHABET_SIZE \<Longrightarrow> assign_rel R st st' \<Longrightarrow>
     assign_rel R (fold (assign_child h node) js st) (fold (assign_child h' node') js st')"
proof (induction js arbitrary: st st')
  case Nil
  then show ?case by simp
next
  case (Cons j js)
  have "assign_rel R (assign_child h node j st) (assign_child h' node' j st')"
    using assign_child_sim[OF s r _ Cons.prems(2)] Cons.prems(1) by simp
  then show ?case using Cons.IH Cons.prems(1) by simp
qed

text \<open>Phase 1 on the two heaps runs in step.\<close>

lemma flatten_assign_sim:
  assumes run: "flatten_assign h qf st = Some r"
  shows "\<forall>st'. sim h h' R \<longrightarrow> assign_rel R st st' \<longrightarrow>
     (\<exists>r'. flatten_assign h' qf st' = Some r' \<and> assign_rel R r r')"
proof (rule flatten_assign.raw_induct[where P = "\<lambda>h qf st r. \<forall>st'. sim h h' R \<longrightarrow>
     assign_rel R st st' \<longrightarrow> (\<exists>r'. flatten_assign h' qf st' = Some r' \<and> assign_rel R r r')",
     OF _ run])
  fix f h qf st r
  assume IH: "\<And>h qf st r. f h qf st = Some r \<Longrightarrow> \<forall>st'. sim h h' R \<longrightarrow>
     assign_rel R st st' \<longrightarrow> (\<exists>r'. flatten_assign h' qf st' = Some r' \<and> assign_rel R r r')"
    and eq: "(if qf < length (fst st)
        then f h (Suc qf) (fold (assign_child h (fst st ! qf)) [0..<ALPHABET_SIZE] st)
        else Some st) = Some r"
  show "\<forall>st'. sim h h' R \<longrightarrow> assign_rel R st st' \<longrightarrow>
     (\<exists>r'. flatten_assign h' qf st' = Some r' \<and> assign_rel R r r')"
  proof (intro allI impI)
    fix st' assume s: "sim h h' R" and a: "assign_rel R st st'"
    have len: "length (fst st) = length (fst st')"
      using a by (auto simp: assign_rel_def list_all2_lengthD split: prod.splits)
    show "\<exists>r'. flatten_assign h' qf st' = Some r' \<and> assign_rel R r r'"
    proof (cases "qf < length (fst st)")
      case False
      then have "r = st" using eq by simp
      then show ?thesis using False len a by (subst flatten_assign_unfold) simp
    next
      case True
      have nn: "R (fst st ! qf) (fst st' ! qf)"
        using a True by (auto simp: assign_rel_def list_all2_conv_all_nth split: prod.splits)
      have f: "assign_rel R (fold (assign_child h (fst st ! qf)) [0..<ALPHABET_SIZE] st)
                 (fold (assign_child h' (fst st' ! qf)) [0..<ALPHABET_SIZE] st')"
        using assign_fold_sim[OF s nn, of "[0..<ALPHABET_SIZE]" st st'] a by simp
      have "f h (Suc qf) (fold (assign_child h (fst st ! qf)) [0..<ALPHABET_SIZE] st) = Some r"
        using eq True by simp
      from IH[OF this, rule_format, OF s f] show ?thesis
        using True len by (subst flatten_assign_unfold) simp
    qed
  qed
qed

lemma emit_child_sim:
  assumes s: "sim h h' R" and r: "R node node'" and i: "i < ALPHABET_SIZE"
    and o: "om_rel R om om'" and a: "emit_rel R st st'"
  shows "emit_rel R (emit_child h om node i st) (emit_child h' om' node' i st')"
proof -
  obtain slot dat vis queue where st: "st = (slot, dat, vis, queue)" by (cases st) auto
  obtain vis' queue' where st': "st' = (slot, dat, vis', queue')"
    using a by (cases st') (auto simp: emit_rel_def fill_rel_def st)
  have q: "list_all2 R queue queue'" and v: "om_rel R vis vis'"
    using a by (simp_all add: emit_rel_def fill_rel_def st st')
  show ?thesis
  proof (cases "child h node i = 0")
    case True
    then have "child h' node' i = 0" using simD(5)[OF s r i] by simp
    then show ?thesis using True a by (simp add: emit_child_def st st')
  next
    case False
    then have c': "child h' node' i \<noteq> 0" using simD(5)[OF s r i] by simp
    have rc: "R (child h node i) (child h' node' i)" using simD(6)[OF s r i False] .
    have g: "offset_map_get om (child h node i) = offset_map_get om' (child h' node' i)"
      using o rc by (simp add: om_rel_def)
    have b: "offset_map_get om node = offset_map_get om' node'"
      using o r by (simp add: om_rel_def)
    have gv: "offset_map_get vis (child h node i) = offset_map_get vis' (child h' node' i)"
      using v rc by (simp add: om_rel_def)
    have cc: "count_children (cells h (child h node i)) =
              count_children (cells h' (child h' node' i))"
      using sim_cc[OF s rc] by (simp add: cc_def)
    have cn: "count_children (cells h node) = count_children (cells h' node')"
      using sim_cc[OF s r] by (simp add: cc_def)
    have fl: "child_is_terminal (cells h node) ! i = child_is_terminal (cells h' node') ! i"
      using simD(7)[OF s r i] .
    have q1: "list_all2 R (queue @ [child h node i]) (queue' @ [child h' node' i])"
      using q rc by (simp add: list_all2_appendI)
    show ?thesis
      using False c' q q1 v om_rel_put[OF s v rc]
      by (simp add: emit_child_def st st' emit_rel_def fill_rel_def Let_def g b gv cc cn fl)
  qed
qed

lemma emit_fold_sim:
  assumes s: "sim h h' R" and r: "R node node'" and o: "om_rel R om om'"
  shows "\<forall>i\<in>set js. i < ALPHABET_SIZE \<Longrightarrow> emit_rel R st st' \<Longrightarrow>
     emit_rel R (fold (emit_child h om node) js st) (fold (emit_child h' om' node') js st')"
proof (induction js arbitrary: st st')
  case Nil
  then show ?case by simp
next
  case (Cons j js)
  have "emit_rel R (emit_child h om node j st) (emit_child h' om' node' j st')"
    using emit_child_sim[OF s r _ o Cons.prems(2)] Cons.prems(1) by simp
  then show ?case using Cons.IH Cons.prems(1) by simp
qed

text \<open>Phase 2 on the two heaps runs in step and writes the same entries.\<close>

lemma flatten_fill_sim:
  assumes run: "flatten_fill h om qf st = Some r"
  shows "\<forall>st'. sim h h' R \<longrightarrow> om_rel R om om' \<longrightarrow> fill_rel R st st' \<longrightarrow>
     (\<exists>r'. flatten_fill h' om' qf st' = Some r' \<and> fill_rel R r r')"
proof (rule flatten_fill.raw_induct[where P = "\<lambda>h om qf st r. \<forall>st'. sim h h' R \<longrightarrow>
     om_rel R om om' \<longrightarrow> fill_rel R st st' \<longrightarrow>
     (\<exists>r'. flatten_fill h' om' qf st' = Some r' \<and> fill_rel R r r')", OF _ run])
  fix f h om qf st r
  assume IH: "\<And>h om qf st r. f h om qf st = Some r \<Longrightarrow> \<forall>st'. sim h h' R \<longrightarrow>
     om_rel R om om' \<longrightarrow> fill_rel R st st' \<longrightarrow>
     (\<exists>r'. flatten_fill h' om' qf st' = Some r' \<and> fill_rel R r r')"
    and eq: "(case st of (dat, vis, queue) \<Rightarrow>
        if qf < length queue
        then f h om (Suc qf)
               (snd (fold (emit_child h om (queue ! qf)) [0..<ALPHABET_SIZE]
                       (0, dat, vis, queue)))
        else Some st) = Some r"
  show "\<forall>st'. sim h h' R \<longrightarrow> om_rel R om om' \<longrightarrow> fill_rel R st st' \<longrightarrow>
     (\<exists>r'. flatten_fill h' om' qf st' = Some r' \<and> fill_rel R r r')"
  proof (intro allI impI)
    fix st' assume s: "sim h h' R" and o: "om_rel R om om'" and a: "fill_rel R st st'"
    obtain dat vis queue where st: "st = (dat, vis, queue)" by (cases st) auto
    obtain vis' queue' where st': "st' = (dat, vis', queue')"
      using a by (cases st') (auto simp: fill_rel_def st)
    have q: "list_all2 R queue queue'" and v: "om_rel R vis vis'"
      using a by (simp_all add: fill_rel_def st st')
    have len: "length queue = length queue'" using q by (rule list_all2_lengthD)
    show "\<exists>r'. flatten_fill h' om' qf st' = Some r' \<and> fill_rel R r r'"
    proof (cases "qf < length queue")
      case False
      then have "r = st" using eq by (simp add: st)
      then show ?thesis
        using False len a unfolding st' by (subst flatten_fill_unfold) (simp add: st st')
    next
      case True
      have nn: "R (queue ! qf) (queue' ! qf)"
        using q True by (simp add: list_all2_conv_all_nth)
      have e0: "emit_rel R (0, dat, vis, queue) (0, dat, vis', queue')"
        using q v by (simp add: emit_rel_def fill_rel_def)
      have f: "emit_rel R
          (fold (emit_child h om (queue ! qf)) [0..<ALPHABET_SIZE] (0, dat, vis, queue))
          (fold (emit_child h' om' (queue' ! qf)) [0..<ALPHABET_SIZE] (0, dat, vis', queue'))"
        using emit_fold_sim[OF s nn o, of "[0..<ALPHABET_SIZE]"] e0 by simp
      then have f': "fill_rel R
          (snd (fold (emit_child h om (queue ! qf)) [0..<ALPHABET_SIZE] (0, dat, vis, queue)))
          (snd (fold (emit_child h' om' (queue' ! qf)) [0..<ALPHABET_SIZE]
                  (0, dat, vis', queue')))"
        by (simp add: emit_rel_def)
      have "f h om (Suc qf)
          (snd (fold (emit_child h om (queue ! qf)) [0..<ALPHABET_SIZE] (0, dat, vis, queue)))
            = Some r"
        using eq True by (simp add: st)
      from IH[OF this, rule_format, OF s o f'] show ?thesis
        using True len unfolding st' by (subst flatten_fill_unfold) simp
    qed
  qed
qed

text \<open>Flattening two heaps that hold the same automaton gives the same image.\<close>

lemma dawg_flatten_sim:
  assumes s: "sim h h' R" and r: "R root root'"
    and run: "dawg_flatten root h = Some pd"
  shows "dawg_flatten root' h' = Some pd"
proof -
  obtain queue om sz where a: "flatten_offsets root h = Some (queue, om, sz)"
    using run by (cases "flatten_offsets root h") (auto simp: dawg_flatten_def)
  define pd0 where "pd0 = (packed_dawg_create 500000)\<lparr>size := sz\<rparr>"
  define pd1 where "pd1 = (if size pd0 > capacity pd0
      then pd0\<lparr>capacity := size pd0 * 2, data := (\<lambda>_. 0)\<rparr> else pd0)"
  have e: "dawg_flatten root h =
      map_option (\<lambda>(dat, vis, queue). pd1\<lparr>data := dat\<rparr>)
        (flatten_fill h om 0 (data pd1, offset_map_put offset_map_create root 1, [root]))"
    unfolding dawg_flatten_def a pd1_def pd0_def by (simp add: Let_def)
  obtain dat vis queue2 where f:
    "flatten_fill h om 0 (data pd1, offset_map_put offset_map_create root 1, [root]) =
       Some (dat, vis, queue2)" and pd: "pd = pd1\<lparr>data := dat\<rparr>"
    using run unfolding e by (auto split: prod.splits)
  have o0: "om_rel R offset_map_create offset_map_create"
    by (simp add: om_rel_def offset_map_get_create)
  have cc: "count_children (cells h root) = count_children (cells h' root')"
    using sim_cc[OF s r] by (simp add: cc_def)
  have i1: "assign_rel R ([root], offset_map_put offset_map_create root 0,
        count_children (cells h root))
      ([root'], offset_map_put offset_map_create root' 0, count_children (cells h' root'))"
    using r om_rel_put[OF s o0 r] cc by (simp add: assign_rel_def)
  obtain queue' om' where a': "flatten_offsets root' h' = Some (queue', om', sz)"
    and o: "om_rel R om om'"
    using flatten_assign_sim[OF a[unfolded flatten_offsets_def], rule_format, OF s i1]
    by (auto simp: flatten_offsets_def assign_rel_def)
  have i2: "fill_rel R (data pd1, offset_map_put offset_map_create root 1, [root])
      (data pd1, offset_map_put offset_map_create root' 1, [root'])"
    using r om_rel_put[OF s o0 r] by (simp add: fill_rel_def)
  obtain vis' queue2' where f':
    "flatten_fill h' om' 0 (data pd1, offset_map_put offset_map_create root' 1, [root']) =
       Some (dat, vis', queue2')"
    using flatten_fill_sim[OF f, rule_format, OF s o i2] by (auto simp: fill_rel_def)
  have "dawg_flatten root' h' =
      map_option (\<lambda>(dat, vis, queue). pd1\<lparr>data := dat\<rparr>)
        (flatten_fill h' om' 0 (data pd1, offset_map_put offset_map_create root' 1, [root']))"
    unfolding dawg_flatten_def a' pd1_def pd0_def by (simp add: Let_def)
  then show ?thesis by (simp only: f' pd option.map prod.case)
qed

text \<open>Two automata correspond node by node through the languages of their nodes.\<close>

lemma dawg_sim:
  assumes d: "dawg h root N L" and d': "dawg h' root' N' L'"
  shows "sim h h' (\<lambda>n n'. n \<in> N \<and> n' \<in> N' \<and> L n = L' n')"
  unfolding sim_def
proof (intro conjI allI impI)
  fix n n' n'' assume "n \<in> N \<and> n' \<in> N' \<and> L n = L' n'" "n \<in> N \<and> n'' \<in> N' \<and> L n = L' n''"
  then show "n' = n''" using inj_onD[OF dawgD(5)[OF d'], of n' n''] by simp
next
  fix n n' n'' assume "n \<in> N \<and> n'' \<in> N' \<and> L n = L' n''" "n' \<in> N \<and> n'' \<in> N' \<and> L n' = L' n''"
  then show "n = n'" using inj_onD[OF dawgD(5)[OF d], of n n'] by simp
next
  fix a show "length (children (cells h a)) = ALPHABET_SIZE" using dawgD(7)[OF d] .
next
  fix a show "length (children (cells h' a)) = ALPHABET_SIZE" using dawgD(7)[OF d'] .
next
  fix n n' j assume r: "n \<in> N \<and> n' \<in> N' \<and> L n = L' n'" and j: "j < ALPHABET_SIZE"
  then have n: "n \<in> N" and n': "n' \<in> N'" and e: "L n = L' n'" by simp_all
  note g = lang_graphD[OF dawgD(1)[OF d] n j]
  note g' = lang_graphD[OF dawgD(1)[OF d'] n' j]
  show "child h n j = 0 \<longleftrightarrow> child h' n' j = 0" using g(1) g'(1) e by metis
  show "child_is_terminal (cells h n) ! j = child_is_terminal (cells h' n') ! j"
    using g(4) g'(4) e by (simp add: eflag_def)
  assume c: "child h n j \<noteq> 0"
  then have c': "child h' n' j \<noteq> 0" using g(1) g'(1) e by metis
  show "child h n j \<in> N" using g(2)[OF c] .
  show "child h' n' j \<in> N'" using g'(2)[OF c'] .
  show "L (child h n j) = L' (child h' n' j)" using g(3)[OF c] g'(3)[OF c'] e by simp
qed

lemma dawg_flatten_lang:
  assumes d: "dawg h root N L" and d': "dawg h' root' N' L'" and e: "L root = L' root'"
  shows "dawg_flatten root h = dawg_flatten root' h'"
proof -
  obtain pd where pd: "dawg_flatten root h = Some pd"
    using dawg_flatten_correct[OF d] by blast
  have "dawg_flatten root' h' = Some pd"
    using dawg_flatten_sim[OF dawg_sim[OF d d'] _ pd] dawgD(2)[OF d] dawgD(2)[OF d'] e by simp
  then show ?thesis using pd by simp
qed

text \<open>The language of the root is the word set without the empty word.\<close>

lemma rl_root:
  assumes "dawg_inv T root h1 h m K"
  shows "rl K T root = T - {[]}"
proof -
  have "K root = []"
    using assms start_trie[of h1 root K T] unfolding dawg_inv_def trie_inv_def by simp
  then show ?thesis by (auto simp: rl_def)
qed

text \<open>The binary depends on the set of the non-empty words only.\<close>

lemma build_binary_cong:
  assumes l: "list_all lowercase ws" and l': "list_all lowercase ws'"
    and e: "set ws - {[]} = set ws' - {[]}"
  shows "build_binary ws = build_binary ws'"
proof -
  obtain h1 h m K where b: "build_dawg ws = Some (1, h, m)" "dawg_inv (set ws) 1 h1 h m K"
    using build_dawg_correct[OF l] by blast
  obtain h1' h' m' K' where b': "build_dawg ws' = Some (1, h', m')"
    "dawg_inv (set ws') 1 h1' h' m' K'"
    using build_dawg_correct[OF l'] by blast
  have d: "dawg h 1 (insert 1 (canon_set m)) (rl K (set ws))"
    using dawg_inv_dawg[OF b(2)] by simp
  have d': "dawg h' 1 (insert 1 (canon_set m')) (rl K' (set ws'))"
    using dawg_inv_dawg[OF b'(2)] by simp
  have "rl K (set ws) 1 = rl K' (set ws') 1"
    using rl_root[OF b(2)] rl_root[OF b'(2)] e by simp
  then have "dawg_flatten 1 h = dawg_flatten 1 h'" using dawg_flatten_lang[OF d d'] by simp
  then show ?thesis using b(1) b'(1) by (simp add: build_binary_def build_packed_def)
qed

lemma build_binary_total:
  assumes l: "list_all lowercase ws"
  shows "\<exists>entries. build_binary ws = Some entries"
proof -
  obtain h1 h m K where b: "build_dawg ws = Some (1, h, m)" "dawg_inv (set ws) 1 h1 h m K"
    using build_dawg_correct[OF l] by blast
  have d: "dawg h 1 (insert 1 (canon_set m)) (rl K (set ws))"
    using dawg_inv_dawg[OF b(2)] by simp
  obtain pd where "dawg_flatten 1 h = Some pd" using dawg_flatten_correct[OF d] by blast
  then show ?thesis using b(1) by (simp add: build_binary_def build_packed_def)
qed

section \<open>The binary as a function of the word set\<close>

lemma lowercase_set:
  assumes "list_all lowercase ws" "set ws' - {[]} = set ws - {[]}"
  shows "list_all lowercase ws'"
proof -
  have "lowercase w" if "w \<in> set ws'" for w
  proof (cases "w = []")
    case True
    then show ?thesis by (simp add: lowercase_def)
  next
    case False
    then have "w \<in> set ws" using that assms(2) by blast
    then show ?thesis using assms(1) by (simp add: list_all_iff)
  qed
  then show ?thesis by (simp add: list_all_iff)
qed

lemma build_binary_same:
  assumes l: "list_all lowercase ws" and e: "set ws' - {[]} = set ws - {[]}"
  shows "\<exists>img. build_binary ws = Some img \<and> build_binary ws' = Some img"
proof -
  obtain img where i: "build_binary ws = Some img" using build_binary_total[OF l] by blast
  have "build_binary ws' = build_binary ws"
    using build_binary_cong[OF lowercase_set[OF l e] l e] .
  then show ?thesis using i by simp
qed

lemma trie_build_present:
  assumes l: "list_all lowercase ws"
  shows "\<exists>root h. trie_build ws = Some (root, h) \<and>
           (\<forall>w\<in>set ws. trie_insert root w h = Some h)"
proof -
  obtain h K where b: "trie_build ws = Some (1, h)"
    "trie_inv h 1 K (insert [] (prefixes (set ws))) (set ws)"
    using trie_build_inv[OF l] by blast
  have r: "1 \<in> {1..<brk h}" and k: "K 1 = []" using b(2) unfolding trie_inv_def by simp_all
  have "trie_insert 1 w h = Some h" if w: "w \<in> set ws" for w
  proof -
    have "lowercase w" using l w by (simp add: list_all_iff)
    then show ?thesis using trie_insert_present[OF _ b(2) r, of w] k w by simp
  qed
  then show ?thesis using b(1) by blast
qed

lemma flatten_root_block:
  assumes d: "dawg h root N L" and f: "flat_ok h root N queue om pd"
  shows "offset_map_get om root = 0"
    and "\<forall>j<ALPHABET_SIZE. child h root j \<noteq> 0 \<longrightarrow>
           data pd (slot_of h root j) = entry_of h om root j"
proof -
  have A: "assign_inv h root N (length queue) (queue, om, size pd)"
    and W: "\<forall>n\<in>set queue. block_written h om (data pd) n"
    using f unfolding flat_ok_def by simp_all
  obtain q where q: "queue = root # q" using assign_invD(4,5)[OF A] by (cases queue) auto
  have r: "root \<in> set queue" by (simp add: q)
  have "off h queue root = 0" by (simp add: q off_def)
  then show o: "offset_map_get om root = 0" using assign_invD(6)[OF A r] by simp
  show "\<forall>j<ALPHABET_SIZE. child h root j \<noteq> 0 \<longrightarrow>
           data pd (slot_of h root j) = entry_of h om root j"
    using W r o by (auto simp: block_written_def)
qed

section \<open>Packing and unpacking an entry\<close>

lemma mask_consts:
  "(0x1F :: uint32) = mask 5" "(1 :: uint32) = mask 1" "(0x1FFFFFF :: uint32) = mask 25"
  by (simp_all add: mask_eq_exp_minus_1)

lemma pack_entry_bits:
  "pack_entry j e l p =
     take_bit 5 (word_of_int (int j + 1)) OR push_bit 5 (take_bit 1 (word_of_int (of_bool e)))
       OR push_bit 6 (take_bit 1 (word_of_int (of_bool l)))
       OR push_bit 7 (take_bit 25 (word_of_int p))"
  unfolding pack_entry_def PACK_CHAR_def PACK_EOW_def PACK_EON_def PACK_NEXT_def mask_consts
  by (simp add: take_bit_eq_mask)

lemma UNPACK_CHAR_pack:
  "UNPACK_CHAR (pack_entry j e l p) = take_bit 5 (word_of_int (int j + 1))"
  unfolding UNPACK_CHAR_def pack_entry_bits mask_consts
  by (rule bit_word_eqI) (auto simp: bit_simps)

lemma UNPACK_EOW_pack: "UNPACK_EOW (pack_entry j e l p) = of_bool e"
  unfolding UNPACK_EOW_def pack_entry_bits mask_consts
  by (rule bit_word_eqI) (auto simp: bit_simps)

lemma UNPACK_EON_pack: "UNPACK_EON (pack_entry j e l p) = of_bool l"
  unfolding UNPACK_EON_def pack_entry_bits mask_consts
  by (rule bit_word_eqI) (auto simp: bit_simps)

lemma UNPACK_NEXT_pack:
  "UNPACK_NEXT (pack_entry j e l p) = take_bit 25 (word_of_int p)"
  unfolding UNPACK_NEXT_def pack_entry_bits mask_consts
  by (rule bit_word_eqI) (auto simp: bit_simps)


lemma UNPACK_CHAR_pack_unat:
  assumes "j < ALPHABET_SIZE"
  shows "unat (UNPACK_CHAR (pack_entry j e l p)) = j + 1"
proof -
  have "word_of_int (int j + 1) = (word_of_nat (Suc j) :: uint32)" by simp
  then have "UNPACK_CHAR (pack_entry j e l p) = (word_of_nat (take_bit 5 (Suc j)) :: uint32)"
    unfolding UNPACK_CHAR_pack by (simp only: of_nat_take_bit)
  moreover have "take_bit 5 (Suc j) = Suc j"
    using assms by (intro take_bit_nat_eq_self) simp
  ultimately have "UNPACK_CHAR (pack_entry j e l p) = (word_of_nat (Suc j) :: uint32)" by simp
  then show ?thesis using assms by (simp add: unat_of_nat del: of_nat_Suc)
qed

lemma UNPACK_NEXT_pack_unat:
  assumes "0 \<le> p" "p < 2 ^ 25"
  shows "unat (UNPACK_NEXT (pack_entry j e l p)) = nat p"
proof -
  have "word_of_int p = (word_of_nat (nat p) :: uint32)" using assms(1) by simp
  then have "UNPACK_NEXT (pack_entry j e l p) = (word_of_nat (take_bit 25 (nat p)) :: uint32)"
    unfolding UNPACK_NEXT_pack by (simp only: of_nat_take_bit)
  moreover have "take_bit 25 (nat p) = nat p"
    using assms by (intro take_bit_nat_eq_self) (simp add: nat_less_iff)
  ultimately have "UNPACK_NEXT (pack_entry j e l p) = (word_of_nat (nat p) :: uint32)" by simp
  moreover have "nat p < 2 ^ 32" using assms by (simp add: nat_less_iff)
  ultimately show ?thesis by (simp add: unat_of_nat)
qed

lemma UNPACK_NEXT_pack_mod:
  "UNPACK_NEXT (pack_entry j e l p) = word_of_int (p mod 2 ^ 25)"
proof -
  have "take_bit 25 (word_of_int p :: uint32) = word_of_int (take_bit 25 p)"
    by (rule bit_word_eqI) (auto simp: bit_simps)
  then show ?thesis unfolding UNPACK_NEXT_pack by (simp add: take_bit_eq_mod)
qed

section \<open>The blocks of the image\<close>

lemma flat_okD:
  assumes "flat_ok h root N queue om pd"
  shows "flatten_offsets root h = Some (queue, om, size pd)"
    "assign_inv h root N (length queue) (queue, om, size pd)"
    "\<And>n. n \<in> set queue \<Longrightarrow> block_written h om (data pd) n"
  using assms unfolding flat_ok_def by simp_all

lemma cc_pos:
  assumes "length (children (cells h n)) = ALPHABET_SIZE" "j < ALPHABET_SIZE" "child h n j \<noteq> 0"
  shows "0 < cc h n"
  using slot_of_less[OF assms] by simp

lemma root_has_child:
  assumes len: "\<And>a. length (children (cells h a)) = ALPHABET_SIZE"
  shows "n \<in> reach h root \<Longrightarrow> n \<noteq> root \<Longrightarrow> 0 < cc h root"
proof (induction rule: reach.induct)
  case reach_root
  then show ?case by simp
next
  case (reach_child n j)
  show ?case
  proof (cases "n = root")
    case True
    then show ?thesis using cc_pos[OF len reach_child(2)] reach_child(3) by simp
  next
    case False
    then show ?thesis using reach_child.IH by simp
  qed
qed

lemma block_bounds:
  assumes f: "flat_ok h root N queue om pd" and n: "n \<in> set queue"
  shows "0 \<le> offset_map_get om n" "offset_map_get om n + cc h n \<le> size pd"
proof -
  note A = flat_okD(2)[OF f]
  have o: "offset_map_get om n = off h queue n" using assign_invD(6)[OF A n] .
  show "0 \<le> offset_map_get om n" using o off_nonneg[of h queue n] by simp
  obtain i where i: "i < length queue" "queue ! i = n" using n by (auto simp: in_set_conv_nth)
  show "offset_map_get om n + cc h n \<le> size pd"
    using off_top[OF assign_invD(2)[OF A] i(1), of h] i(2) o assign_invD(9)[OF A] by simp
qed

lemma image_entry:
  assumes d: "dawg h root N L" and f: "flat_ok h root N queue om pd"
    and n: "n \<in> set queue" and j: "j < ALPHABET_SIZE" and c: "child h n j \<noteq> 0"
  shows "0 \<le> offset_map_get om n + slot_of h n j"
    and "offset_map_get om n + slot_of h n j < size pd"
    and "packed_file pd ! nat (offset_map_get om n + slot_of h n j) = entry_of h om n j"
proof -
  note s = slot_of_less[OF dawgD(7)[OF d] j c]
  note b = block_bounds[OF f n]
  show 1: "0 \<le> offset_map_get om n + slot_of h n j" using s b by simp
  show 2: "offset_map_get om n + slot_of h n j < size pd" using s b by simp
  have "data pd (offset_map_get om n + slot_of h n j) = entry_of h om n j"
    using flat_okD(3)[OF f n] j c by (simp add: block_written_def)
  then show "packed_file pd ! nat (offset_map_get om n + slot_of h n j) = entry_of h om n j"
    using 1 2 by (simp add: packed_file_def nat_less_iff)
qed

lemma child_offset:
  assumes d: "dawg h root N L" and f: "flat_ok h root N queue om pd"
    and n: "n \<in> set queue" and j: "j < ALPHABET_SIZE" and c: "child h n j \<noteq> 0"
  shows "0 < cc h (child h n j) \<Longrightarrow> child h n j \<in> set queue"
    and "0 < cc h (child h n j) \<Longrightarrow> 0 < offset_map_get om (child h n j)"
    and "cc h (child h n j) = 0 \<Longrightarrow> offset_map_get om (child h n j) = 0"
proof -
  note A = flat_okD(2)[OF f]
  have nN: "n \<in> N" using assign_invD(3)[OF A] n by auto
  have cr: "child h n j \<noteq> root" using dawgD(6)[OF d nN j] .
  show q: "child h n j \<in> set queue" if "0 < cc h (child h n j)"
    using assigned_children(2)[OF A n j c that] .
  show "offset_map_get om (child h n j) = 0" if "cc h (child h n j) = 0"
    using assigned_children(3)[OF A n j c that cr] .
  show "0 < offset_map_get om (child h n j)" if p: "0 < cc h (child h n j)"
  proof -
    obtain q0 where q0: "queue = root # q0" using assign_invD(4,5)[OF A] by (cases queue) auto
    obtain i where i: "i < length queue" "queue ! i = child h n j"
      using q[OF p] by (auto simp: in_set_conv_nth)
    have i0: "0 < i" using i(2) cr q0 by (cases i) auto
    have "off h queue (queue ! 0) + cc h (queue ! 0) \<le> off h queue (queue ! i)"
      using off_order[OF assign_invD(2)[OF A] i0 i(1)] .
    then have le: "cc h root \<le> off h queue (child h n j)"
      using i(2) q0 by (simp add: off_first)
    have "0 < cc h root"
    proof (cases "n = root")
      case True
      then show ?thesis using cc_pos[OF dawgD(7)[OF d] j] c by simp
    next
      case False
      have "n \<in> reach h root" using assign_reach[OF d A] n by simp
      then show ?thesis using root_has_child[OF dawgD(7)[OF d]] False by simp
    qed
    then show ?thesis using le assign_invD(6)[OF A q[OF p]] by simp
  qed
qed

text \<open>The whole build on a list of lowercase words, with everything known about it.\<close>

lemma build_flat:
  assumes l: "list_all lowercase ws"
  shows "\<exists>h1 h m K queue om pd.
           build_dawg ws = Some (1, h, m) \<and> dawg_inv (set ws) 1 h1 h m K \<and>
           dawg h 1 (insert 1 (canon_set m)) (rl K (set ws)) \<and>
           dawg_flatten 1 h = Some pd \<and>
           flat_ok h 1 (insert 1 (canon_set m)) queue om pd \<and>
           build_binary ws = Some (packed_file pd)"
proof -
  obtain h1 h m K where b: "build_dawg ws = Some (1, h, m)" "dawg_inv (set ws) 1 h1 h m K"
    using build_dawg_correct[OF l] by blast
  have d: "dawg h 1 (insert 1 (canon_set m)) (rl K (set ws))"
    using dawg_inv_dawg[OF b(2)] by simp
  obtain queue om pd where f: "dawg_flatten 1 h = Some pd"
    "flat_ok h 1 (insert 1 (canon_set m)) queue om pd"
    using dawg_flatten_correct[OF d] by blast
  have bb: "build_binary ws = Some (packed_file pd)"
    using b(1) f(1) by (simp add: build_binary_def build_packed_def)
  show ?thesis
    apply (intro exI conjI)
         apply (rule b(1))
        apply (rule b(2))
       apply (rule d)
      apply (rule f(1))
     apply (rule f(2))
    apply (rule bb)
    done
qed




lemma block_next:
  assumes d: "dawg h root N L" and f: "flat_ok h root N queue om pd"
    and n: "n \<in> set queue" and j: "j < ALPHABET_SIZE" and c: "child h n j \<noteq> 0"
  shows "UNPACK_NEXT (data pd (offset_map_get om n + slot_of h n j)) =
           word_of_int (offset_map_get om (child h n j) mod 2 ^ 25)"
    and "size pd \<le> 2 ^ 25 \<Longrightarrow> 0 < cc h (child h n j) \<Longrightarrow>
           0 < unat (UNPACK_NEXT (data pd (offset_map_get om n + slot_of h n j))) \<and>
           unat (UNPACK_NEXT (data pd (offset_map_get om n + slot_of h n j))) =
             nat (offset_map_get om (child h n j))"
    and "cc h (child h n j) = 0 \<Longrightarrow>
           UNPACK_NEXT (data pd (offset_map_get om n + slot_of h n j)) = 0"
proof -
  have e: "data pd (offset_map_get om n + slot_of h n j) = entry_of h om n j"
    using flat_okD(3)[OF f n] j c by (simp add: block_written_def)
  show "UNPACK_NEXT (data pd (offset_map_get om n + slot_of h n j)) =
           word_of_int (offset_map_get om (child h n j) mod 2 ^ 25)"
    unfolding e entry_of_def by (rule UNPACK_NEXT_pack_mod)
  show "UNPACK_NEXT (data pd (offset_map_get om n + slot_of h n j)) = 0"
    if "cc h (child h n j) = 0"
    unfolding e entry_of_def UNPACK_NEXT_pack_mod
    using child_offset(3)[OF d f n j c that] by simp
  show "0 < unat (UNPACK_NEXT (data pd (offset_map_get om n + slot_of h n j))) \<and>
        unat (UNPACK_NEXT (data pd (offset_map_get om n + slot_of h n j))) =
          nat (offset_map_get om (child h n j))"
    if sz: "size pd \<le> 2 ^ 25" and p: "0 < cc h (child h n j)"
  proof -
    note q = child_offset(1)[OF d f n j c p]
    note o = child_offset(2)[OF d f n j c p]
    have "offset_map_get om (child h n j) < 2 ^ 25"
      using block_bounds(2)[OF f q] p sz by simp
    then have "unat (UNPACK_NEXT (entry_of h om n j)) = nat (offset_map_get om (child h n j))"
      unfolding entry_of_def using o by (intro UNPACK_NEXT_pack_unat) simp_all
    then show ?thesis unfolding e using o by simp
  qed
qed

section \<open>The walk\<close>

lemma letter_nonzero: "j < ALPHABET_SIZE \<Longrightarrow> letter j \<noteq> CHR 0x00"
proof
  assume j: "j < ALPHABET_SIZE" and z: "letter j = CHR 0x00"
  have "letter_index (letter j) = int j" using letter_index_letter[of j] j by simp
  then show False unfolding z by (simp add: letter_index_def)
qed

lemma lang_first:
  assumes g: "lang_graph h N L" and n: "n \<in> N" and u: "u \<in> L n"
  shows "\<exists>j<ALPHABET_SIZE. \<exists>u'. u = letter j # u' \<and> child h n j \<noteq> 0"
proof -
  note w = lang_graph_words[OF g n u]
  obtain x u' where xu: "u = x # u'" using w(1) by (cases u) auto
  obtain j where j: "j < ALPHABET_SIZE" "x = letter j"
    using lowercase_letter[of "[]" x u'] w(2) xu by auto
  have "child h n j \<noteq> 0" using lang_graphD(1)[OF g n j(1)] u xu j(2) by blast
  then show ?thesis using j xu by blast
qed

lemma lang_childless:
  assumes g: "lang_graph h N L" and n: "n \<in> N"
    and len: "length (children (cells h n)) = ALPHABET_SIZE" and z: "cc h n = 0"
  shows "L n = {}"
proof (rule ccontr)
  assume "L n \<noteq> {}"
  then obtain u where "u \<in> L n" by blast
  then obtain j where "j < ALPHABET_SIZE" "child h n j \<noteq> 0" using lang_first[OF g n] by blast
  then show False using cc_pos[OF len] z by fastforce
qed

lemma slot_lang_0:
  assumes g: "lang_graph h N L" and n: "n \<in> N"
  shows "slot_lang h L n 0 = L n"
proof -
  have "\<exists>j<ALPHABET_SIZE. \<exists>u'. u = letter j # u' \<and> 0 \<le> slot_of h n j" if "u \<in> L n" for u
    using lang_first[OF g n that] by (auto simp: slot_of_def)
  then show ?thesis unfolding slot_lang_def by blast
qed

lemma slot_lang_end:
  assumes g: "lang_graph h N L" and n: "n \<in> N"
    and len: "length (children (cells h n)) = ALPHABET_SIZE"
  shows "slot_lang h L n (cc h n) = {}"
proof (rule ccontr)
  assume "slot_lang h L n (cc h n) \<noteq> {}"
  then obtain u j u' where u: "u \<in> L n" "j < ALPHABET_SIZE" "u = letter j # u'"
    "cc h n \<le> slot_of h n j"
    unfolding slot_lang_def by blast
  have "child h n j \<noteq> 0" using lang_graphD(1)[OF g n u(2)] u(1,3) by blast
  then show False using slot_of_less(2)[OF len u(2)] u(4) by simp
qed

text \<open>The words of slot \<open>s\<close> and later: those through edge \<open>j\<close> of slot \<open>s\<close>, and the rest.\<close>

lemma slot_lang_step:
  assumes g: "lang_graph h N L" and n: "n \<in> N"
    and len: "length (children (cells h n)) = ALPHABET_SIZE"
    and j: "j < ALPHABET_SIZE" and c: "child h n j \<noteq> 0" and s: "slot_of h n j = s"
  shows "slot_lang h L n s =
           (if eflag h n j then {[letter j]} else {}) \<union> (\<lambda>u. letter j # u) ` L (child h n j) \<union>
           slot_lang h L n (s + 1)"
    and "\<And>u. u \<in> slot_lang h L n (s + 1) \<Longrightarrow> \<not> (\<exists>u'. u = letter j # u')"
proof -
  have first: "slot_of h n i = s \<longleftrightarrow> i = j"
    if "i < ALPHABET_SIZE" "child h n i \<noteq> 0" for i
    using slot_of_inj[OF len that j c] s by auto
  have Lc: "L (child h n j) = {u. u \<noteq> [] \<and> letter j # u \<in> L n}"
    using lang_graphD(3)[OF g n j c] .
  have ef: "eflag h n j \<longleftrightarrow> [letter j] \<in> L n" using lang_graphD(4)[OF g n j] .
  show "slot_lang h L n s =
           (if eflag h n j then {[letter j]} else {}) \<union> (\<lambda>u. letter j # u) ` L (child h n j) \<union>
           slot_lang h L n (s + 1)"
  proof (intro set_eqI iffI)
    fix u assume "u \<in> slot_lang h L n s"
    then obtain i u' where u: "u \<in> L n" "i < ALPHABET_SIZE" "u = letter i # u'"
      "s \<le> slot_of h n i"
      unfolding slot_lang_def by blast
    have ci: "child h n i \<noteq> 0" using lang_graphD(1)[OF g n u(2)] u(1,3) by blast
    show "u \<in> (if eflag h n j then {[letter j]} else {}) \<union>
            (\<lambda>u. letter j # u) ` L (child h n j) \<union> slot_lang h L n (s + 1)"
    proof (cases "i = j")
      case True
      show ?thesis
      proof (cases "u' = []")
        case True
        then show ?thesis using u(1,3) \<open>i = j\<close> ef by simp
      next
        case False
        then have "u' \<in> L (child h n j)" using Lc u(1,3) True by simp
        then show ?thesis using u(3) True by blast
      qed
    next
      case False
      then have "slot_of h n i \<noteq> s" using first[OF u(2) ci] by simp
      then have "s + 1 \<le> slot_of h n i" using u(4) by simp
      then have "u \<in> slot_lang h L n (s + 1)" unfolding slot_lang_def using u(1,2,3) by blast
      then show ?thesis by simp
    qed
  next
    fix u assume a: "u \<in> (if eflag h n j then {[letter j]} else {}) \<union>
            (\<lambda>u. letter j # u) ` L (child h n j) \<union> slot_lang h L n (s + 1)"
    have here: "letter j # u' \<in> L n \<Longrightarrow> letter j # u' \<in> slot_lang h L n s" for u'
      unfolding slot_lang_def using j s by auto
    consider "eflag h n j \<and> u = [letter j]" | "u \<in> (\<lambda>u. letter j # u) ` L (child h n j)"
      | "u \<in> slot_lang h L n (s + 1)"
      using a by (auto split: if_splits)
    then show "u \<in> slot_lang h L n s"
    proof cases
      case 1
      then show ?thesis using here[of "[]"] ef by simp
    next
      case 2
      then obtain u' where "u = letter j # u'" "u' \<in> L (child h n j)" by blast
      then show ?thesis using here[of u'] Lc by simp
    next
      case 3
      then show ?thesis unfolding slot_lang_def by auto
    qed
  qed
  show "\<not> (\<exists>u'. u = letter j # u')" if later: "u \<in> slot_lang h L n (s + 1)" for u
  proof
    assume "\<exists>u'. u = letter j # u'"
    then obtain u' where e: "u = letter j # u'" by blast
    obtain i u'' where u: "i < ALPHABET_SIZE" "u = letter i # u''" "s + 1 \<le> slot_of h n i"
      using later unfolding slot_lang_def by blast
    have "i = j" using letter_inj[OF u(1) j] e u(2) by simp
    then show False using u(3) s by simp
  qed
qed

lemma walk_post_refl: "walk_post pw p {} st st"
  by (simp add: walk_post_def)

lemma walk_post_trans:
  assumes "walk_post pw p S1 st st1" "walk_post pw p S2 st1 st2" "S1 \<inter> S2 = {}"
  shows "walk_post pw p (S1 \<union> S2) st st2"
proof -
  obtain o1 where o1: "set o1 = (\<lambda>u. p @ u) ` S1" "distinct o1"
    "printed st1 = printed st @ (if pw then o1 else [])"
    "word_count st1 = word_count st + int (length o1)"
    using assms(1) unfolding walk_post_def by blast
  obtain o2 where o2: "set o2 = (\<lambda>u. p @ u) ` S2" "distinct o2"
    "printed st2 = printed st1 @ (if pw then o2 else [])"
    "word_count st2 = word_count st1 + int (length o2)"
    using assms(2) unfolding walk_post_def by blast
  have "set o1 \<inter> set o2 = {}" using o1(1) o2(1) assms(3) by auto
  then have d: "distinct (o1 @ o2)" using o1(2) o2(2) by simp
  have s: "set (o1 @ o2) = (\<lambda>u. p @ u) ` (S1 \<union> S2)" using o1(1) o2(1) by auto
  have pr: "printed st2 = printed st @ (if pw then o1 @ o2 else [])"
    using o1(3) o2(3) by simp
  have wc: "word_count st2 = word_count st + int (length (o1 @ o2))"
    using o1(4) o2(4) by simp
  have b: "length (buffer st2) = length (buffer st)"
    "take (length p) (buffer st2) = take (length p) (buffer st)"
    using assms(1,2) unfolding walk_post_def by simp_all
  show ?thesis unfolding walk_post_def using b s d pr wc by blast
qed

lemma walk_post_child:
  assumes "walk_post pw (p @ [x]) S st st'"
  shows "walk_post pw p ((\<lambda>u. x # u) ` S) st st'"
proof -
  obtain out where o: "set out = (\<lambda>u. (p @ [x]) @ u) ` S" "distinct out"
    "printed st' = printed st @ (if pw then out else [])"
    "word_count st' = word_count st + int (length out)"
    and b: "length (buffer st') = length (buffer st)"
    "take (length (p @ [x])) (buffer st') = take (length (p @ [x])) (buffer st)"
    using assms unfolding walk_post_def by blast
  have "take (length p) (take (length (p @ [x])) (buffer st')) =
        take (length p) (take (length (p @ [x])) (buffer st))"
    using b(2) by simp
  then have t: "take (length p) (buffer st') = take (length p) (buffer st)"
    by (simp add: min_def)
  have "set out = (\<lambda>u. p @ u) ` (\<lambda>u. x # u) ` S" using o(1) by (auto simp: image_image)
  then show ?thesis unfolding walk_post_def using b(1) t o(2,3,4) by blast
qed

lemma walk_call_unfold:
  "index \<noteq> 0 \<or> depth = 0 \<Longrightarrow>
   packed_dawg_walk_run dat pw (WCall index depth) st =
     packed_dawg_walk_run dat pw (WLoop index depth) st"
  by (subst packed_dawg_walk_run.simps) auto

lemma walk_loop_unfold:
  assumes "idx < length dat" "walk_entry pw (dat ! idx) depth st = Inr st1"
    and "(if UNPACK_NEXT (dat ! idx) \<noteq> 0
          then packed_dawg_walk_run dat pw (WCall (unat (UNPACK_NEXT (dat ! idx))) (depth + 1)) st1
          else Some (Inr st1)) = Some (Inr st2)"
  shows "packed_dawg_walk_run dat pw (WLoop idx depth) st =
           (if UNPACK_EON (dat ! idx) \<noteq> 0 then Some (Inr st2)
            else packed_dawg_walk_run dat pw (WLoop (idx + 1) depth) st2)"
  using assms by (subst packed_dawg_walk_run.simps) (simp add: Let_def)

text \<open>One entry: the letter goes into the buffer, and the word so far is counted and printed
  if the edge is flagged.\<close>

lemma walk_entry_ok:
  assumes len: "Suc (length p) < length (buffer st)"
    and p: "take (length p) (buffer st) = p" and z: "CHR 0x00 \<notin> set p"
    and j: "j < ALPHABET_SIZE" and c: "unat (UNPACK_CHAR v) = j + 1"
  shows "\<exists>st1. walk_entry pw v (length p) st = Inr st1 \<and>
           length (buffer st1) = length (buffer st) \<and>
           take (Suc (length p)) (buffer st1) = p @ [letter j] \<and>
           printed st1 = printed st @ (if UNPACK_EOW v \<noteq> 0 \<and> pw then [p @ [letter j]] else []) \<and>
           word_count st1 = word_count st + (if UNPACK_EOW v \<noteq> 0 then 1 else 0)"
proof -
  let ?d = "length p"
  let ?b1 = "(buffer st)[?d := letter j]"
  let ?b3 = "?b1[Suc ?d := CHR 0x00]"
  have ch: "char_of (97 + unat (UNPACK_CHAR v) - 1) = letter j"
    unfolding c by (simp add: letter_def)
  have t1: "take (Suc ?d) ?b1 = p @ [letter j]"
    using len p by (simp add: take_Suc_conv_app_nth)
  have t3: "take (Suc ?d) ?b3 = p @ [letter j]" using t1 by simp
  have "?b3 = take (Suc ?d) ?b3 @ ?b3 ! Suc ?d # drop (Suc (Suc ?d)) ?b3"
    using len by (intro id_take_nth_drop) simp
  then have b3: "?b3 = (p @ [letter j]) @ CHR 0x00 # drop (Suc (Suc ?d)) ?b3"
    using t3 len by simp
  have "c_string ?b3 = p @ [letter j]"
    unfolding c_string_def
    by (subst b3, subst takeWhile_append2) (use z letter_nonzero[OF j] in auto)
  then show ?thesis
    using len t1 t3 ch by (simp add: walk_entry_def Let_def)
qed

text \<open>
  Walking the block of a node from slot \<open>s\<close> on, with the path to the node in the buffer:
  the walk returns and has counted and printed the words of the node from slot \<open>s\<close> on,
  each after the path.
\<close>

lemma walk_block:
  assumes d: "dawg h root N L" and f: "flat_ok h root N queue om pd"
    and sz: "size pd \<le> 2 ^ 25"
  shows "n \<in> set queue \<Longrightarrow> 0 \<le> s \<Longrightarrow> s < cc h n \<Longrightarrow> \<forall>u\<in>L n. length u \<le> k \<Longrightarrow>
     length p + k < length (buffer st) \<Longrightarrow> take (length p) (buffer st) = p \<Longrightarrow>
     CHR 0x00 \<notin> set p \<Longrightarrow>
     \<exists>st'. packed_dawg_walk_run (packed_file pd) pw
              (WLoop (nat (offset_map_get om n + s)) (length p)) st = Some (Inr st') \<and>
           walk_post pw p (slot_lang h L n s) st st'"
proof (induction k arbitrary: n s p st rule: less_induct)
  case (less k)
  note g = dawgD(1)[OF d]
  note A = flat_okD(2)[OF f]
  note len = dawgD(7)[OF d]
  have nN: "n \<in> N" using assign_invD(3)[OF A] less.prems(1) by auto
  note n = less.prems(1)
  let ?o = "offset_map_get om n"
  let ?dat = "packed_file pd"
  have "0 \<le> s \<Longrightarrow> s < cc h n \<Longrightarrow> length p + k < length (buffer st) \<Longrightarrow>
     take (length p) (buffer st) = p \<Longrightarrow>
     \<exists>st'. packed_dawg_walk_run ?dat pw (WLoop (nat (?o + s)) (length p)) st = Some (Inr st') \<and>
           walk_post pw p (slot_lang h L n s) st st'" for s st
  proof (induction "nat (cc h n - s)" arbitrary: s st rule: less_induct)
    case inner: less
    obtain j where j: "j < ALPHABET_SIZE" "child h n j \<noteq> 0" "slot_of h n j = s"
      using slot_cover[OF len inner.prems(1,2)] by blast
    let ?c = "child h n j"
    let ?x = "letter j"
    let ?idx = "nat (?o + s)"
    let ?v = "?dat ! ?idx"
    note ie = image_entry[OF d f n j(1,2), unfolded j(3)]
    have idx: "?idx < length ?dat" using ie(1,2) by (simp add: packed_file_def nat_less_iff)
    have v: "?v = entry_of h om n j" using ie(3) .
    have dv: "data pd (?o + slot_of h n j) = entry_of h om n j"
      using flat_okD(3)[OF f n] j(1,2) by (simp add: block_written_def)
    have cN: "?c \<in> N" using dawg_child[OF d nN j(1,2)] .
    have Lc: "L ?c = {u. u \<noteq> [] \<and> ?x # u \<in> L n}" using lang_graphD(3)[OF g nN j(1,2)] .
    obtain u0 where u0: "?x # u0 \<in> L n" using lang_graphD(1)[OF g nN j(1)] j(2) by blast
    then have k1: "1 \<le> k" using less.prems(4) by fastforce
    have blen: "Suc (length p) < length (buffer st)" using inner.prems(3) k1 by simp
    have vc: "unat (UNPACK_CHAR ?v) = j + 1"
      unfolding v entry_of_def by (rule UNPACK_CHAR_pack_unat[OF j(1)])
    have ve: "UNPACK_EOW ?v \<noteq> 0 \<longleftrightarrow> eflag h n j"
      unfolding v entry_of_def UNPACK_EOW_pack by (simp add: eflag_def)
    obtain st1 where st1: "walk_entry pw ?v (length p) st = Inr st1"
      "length (buffer st1) = length (buffer st)"
      "take (Suc (length p)) (buffer st1) = p @ [?x]"
      "printed st1 = printed st @ (if eflag h n j \<and> pw then [p @ [?x]] else [])"
      "word_count st1 = word_count st + (if eflag h n j then 1 else 0)"
      using walk_entry_ok[OF blen inner.prems(4) less.prems(7) j(1) vc, of pw] ve by auto
    have "take (length p) (take (Suc (length p)) (buffer st1)) = p" using st1(3) by simp
    then have tk1: "take (length p) (buffer st1) = p" by (simp add: min_def)
    have edge: "walk_post pw p (if eflag h n j then {[?x]} else {}) st st1"
      unfolding walk_post_def
    proof (intro conjI)
      show "length (buffer st1) = length (buffer st)" using st1(2) .
      show "take (length p) (buffer st1) = take (length p) (buffer st)"
        using tk1 inner.prems(4) by simp
      show "\<exists>out. set out = (\<lambda>u. p @ u) ` (if eflag h n j then {[?x]} else {}) \<and>
          distinct out \<and> printed st1 = printed st @ (if pw then out else []) \<and>
          word_count st1 = word_count st + int (length out)"
        using st1(4,5) by (intro exI[of _ "if eflag h n j then [p @ [?x]] else []"]) simp
    qed
    have below: "\<exists>st2. (if UNPACK_NEXT ?v \<noteq> 0
          then packed_dawg_walk_run ?dat pw (WCall (unat (UNPACK_NEXT ?v)) (length p + 1)) st1
          else Some (Inr st1)) = Some (Inr st2) \<and>
        walk_post pw (p @ [?x]) (L ?c) st1 st2"
    proof (cases "0 < cc h ?c")
      case True
      note cq = child_offset(1)[OF d f n j(1,2) True]
      have nx: "0 < unat (UNPACK_NEXT ?v)"
        "unat (UNPACK_NEXT ?v) = nat (offset_map_get om ?c)"
        using block_next(2)[OF d f n j(1,2) sz True, unfolded dv, folded v] by blast+
      have nz: "UNPACK_NEXT ?v \<noteq> 0" using nx(1) by (auto simp: unat_gt_0)
      have kc: "\<forall>u\<in>L ?c. length u \<le> k - 1"
      proof
        fix u assume "u \<in> L ?c"
        then have "?x # u \<in> L n" using Lc by simp
        then show "length u \<le> k - 1" using less.prems(4) by fastforce
      qed
      have b1: "length (p @ [?x]) + (k - 1) < length (buffer st1)"
        using inner.prems(3) st1(2) k1 by simp
      have t1: "take (length (p @ [?x])) (buffer st1) = p @ [?x]" using st1(3) by simp
      have z1: "CHR 0x00 \<notin> set (p @ [?x])"
        using less.prems(7) letter_nonzero[OF j(1)] by auto
      have "k - 1 < k" using k1 by simp
      from less.IH[OF this cq _ True kc b1 t1 z1]
      obtain st2 where st2: "packed_dawg_walk_run ?dat pw
              (WLoop (nat (offset_map_get om ?c)) (length (p @ [?x]))) st1 = Some (Inr st2)"
        "walk_post pw (p @ [?x]) (slot_lang h L ?c 0) st1 st2"
        by auto
      have "packed_dawg_walk_run ?dat pw (WCall (unat (UNPACK_NEXT ?v)) (length p + 1)) st1 =
            Some (Inr st2)"
        using walk_call_unfold[of "unat (UNPACK_NEXT ?v)" "length p + 1" ?dat pw st1]
          nx st2(1) by simp
      then show ?thesis using nz st2(2) slot_lang_0[OF g cN] by auto
    next
      case False
      then have z: "cc h ?c = 0" using cc_nonneg[of h ?c] by simp
      have "UNPACK_NEXT ?v = 0"
        using block_next(3)[OF d f n j(1,2) z] unfolding dv v .
      moreover have "L ?c = {}" using lang_childless[OF g cN len z] .
      ultimately show ?thesis using walk_post_refl by simp
    qed
    then obtain st2 where st2: "(if UNPACK_NEXT ?v \<noteq> 0
          then packed_dawg_walk_run ?dat pw (WCall (unat (UNPACK_NEXT ?v)) (length p + 1)) st1
          else Some (Inr st1)) = Some (Inr st2)"
      "walk_post pw (p @ [?x]) (L ?c) st1 st2"
      by blast
    have sub: "walk_post pw p ((\<lambda>u. ?x # u) ` L ?c) st1 st2"
      using walk_post_child[OF st2(2)] .
    have dj1: "(if eflag h n j then {[?x]} else {}) \<inter> (\<lambda>u. ?x # u) ` L ?c = {}"
      using Lc by auto
    have slotj: "walk_post pw p
        ((if eflag h n j then {[?x]} else {}) \<union> (\<lambda>u. ?x # u) ` L ?c) st st2"
      using walk_post_trans[OF edge sub dj1] .
    note step = slot_lang_step[OF g nN len j]
    have run: "packed_dawg_walk_run ?dat pw (WLoop ?idx (length p)) st =
           (if UNPACK_EON ?v \<noteq> 0 then Some (Inr st2)
            else packed_dawg_walk_run ?dat pw (WLoop (?idx + 1) (length p)) st2)"
      using walk_loop_unfold[OF idx st1(1) st2(1)] .
    have eon: "UNPACK_EON ?v \<noteq> 0 \<longleftrightarrow> s = cc h n - 1"
      unfolding v entry_of_def UNPACK_EON_pack using j(3) by simp
    have b2: "length (buffer st2) = length (buffer st)"
      "take (length p) (buffer st2) = p"
      using slotj inner.prems(4) unfolding walk_post_def by simp_all
    show ?case
    proof (cases "s = cc h n - 1")
      case True
      have "slot_lang h L n (s + 1) = {}" using slot_lang_end[OF g nN len] True by simp
      then have "walk_post pw p (slot_lang h L n s) st st2" using slotj step(1) by simp
      then show ?thesis using run eon True by simp
    next
      case False
      then have s1: "0 \<le> s + 1" "s + 1 < cc h n" using inner.prems(1,2) by simp_all
      have m: "nat (cc h n - (s + 1)) < nat (cc h n - s)" using inner.prems(2) by simp
      have b3: "length p + k < length (buffer st2)" using b2(1) inner.prems(3) by simp
      obtain st3 where st3: "packed_dawg_walk_run ?dat pw
            (WLoop (nat (?o + (s + 1))) (length p)) st2 = Some (Inr st3)"
        "walk_post pw p (slot_lang h L n (s + 1)) st2 st3"
        using inner.hyps[OF m s1 b3 b2(2)] by blast
      have i1: "?idx + 1 = nat (?o + (s + 1))" using ie(1) by simp
      have dj2: "((if eflag h n j then {[?x]} else {}) \<union> (\<lambda>u. ?x # u) ` L ?c) \<inter>
            slot_lang h L n (s + 1) = {}"
        using step(2) by (auto split: if_splits)
      have "walk_post pw p (slot_lang h L n s) st st3"
        using walk_post_trans[OF slotj st3(2) dj2] step(1) by simp
      then show ?thesis using run eon False st3(1) i1 by simp
    qed
  qed
  then show ?case using less.prems by blast
qed

text \<open>The walk of the whole image, for a word list with at least one non-empty word.\<close>

lemma verify_correct:
  assumes l: "list_all lowercase ws" and ne: "\<exists>w\<in>set ws. w \<noteq> []"
    and w: "\<forall>w\<in>set ws. length w \<le> 255" and buf: "length buf = 256"
    and b: "build_binary ws = Some img" and sz: "length img \<le> 2 ^ 25"
  shows "\<exists>s out. packed_dawg_verify img pw buf = Some (Inr s) \<and>
           set out = set ws - {[]} \<and> distinct out \<and>
           printed s = (if pw then out else []) \<and> word_count s = int (length out)"
proof -
  obtain h1 h m K queue om pd where bf: "build_dawg ws = Some (1, h, m)"
    "dawg_inv (set ws) 1 h1 h m K"
    "dawg h 1 (insert 1 (canon_set m)) (rl K (set ws))"
    "dawg_flatten 1 h = Some pd" "flat_ok h 1 (insert 1 (canon_set m)) queue om pd"
    "build_binary ws = Some (packed_file pd)"
    using build_flat[OF l] by blast
  note d = bf(3) and f = bf(5)
  note g = dawgD(1)[OF d]
  note A = flat_okD(2)[OF f]
  let ?L = "rl K (set ws)"
  have img: "img = packed_file pd" using b bf(6) by simp
  have "0 \<le> size pd" using assign_invD(9)[OF A] sum_cc_nonneg[of h queue] by simp
  then have sz': "size pd \<le> 2 ^ 25" using sz unfolding img packed_file_def by simp
  have L1: "?L 1 = set ws - {[]}" using rl_root[OF bf(2)] .
  obtain q0 where q0: "queue = 1 # q0" using assign_invD(4,5)[OF A] by (cases queue) auto
  have rq: "1 \<in> set queue" by (simp add: q0)
  have o1: "offset_map_get om 1 = 0" using flatten_root_block(1)[OF d f] .
  obtain w0 where w0: "w0 \<in> ?L 1" using ne L1 by auto
  obtain j where j: "j < ALPHABET_SIZE" "child h 1 j \<noteq> 0"
    using lang_first[OF g dawgD(2)[OF d] w0] by blast
  have c1: "0 < cc h 1" using cc_pos[OF dawgD(7)[OF d] j] .
  have k: "\<forall>u\<in>?L 1. length u \<le> 255" using w L1 by auto
  let ?st = "\<lparr>buffer = buf, word_count = 0, printed = []\<rparr>"
  obtain st' where r: "packed_dawg_walk_run (packed_file pd) pw
        (WLoop (nat (offset_map_get om 1 + 0)) (length ([] :: string))) ?st = Some (Inr st')"
    "walk_post pw [] (slot_lang h ?L 1 0) ?st st'"
    using walk_block[OF d f sz' rq _ _ k, of 0 "[]" ?st pw] c1 buf by auto
  have run: "packed_dawg_verify img pw buf = Some (Inr st')"
    using r(1) o1 walk_call_unfold[of 0 0 "packed_file pd" pw ?st]
    by (simp add: packed_dawg_verify_def packed_dawg_walk_def img)
  obtain out where out: "set out = (\<lambda>u. [] @ u) ` (set ws - {[]})" "distinct out"
    "printed st' = (if pw then out else [])" "word_count st' = int (length out)"
    using r(2) unfolding walk_post_def slot_lang_0[OF g dawgD(2)[OF d]] L1 by auto
  have "set out = set ws - {[]}" using out(1) by simp
  then show ?thesis using run out(2,3,4) by blast
qed

section \<open>The claims\<close>

text \<open>
  C9.  For the words \<open>ab\<close> and \<open>ac\<close> the packed image has exactly three entries: index 0
  holds (letter 1, eow 0, eon 1, next 1), index 1 holds (letter 2, eow 1, eon 0, next 0)
  and index 2 holds (letter 3, eow 1, eon 1, next 0).  The node count that the program
  prints is 3: the root and two other nodes, the node below \<open>a\<close> and the merged leaf.
\<close>

theorem C9_packed_ab_ac:
  "(\<exists>img. build_binary [''ab'', ''ac''] = Some img \<and> length img = 3 \<and>
      map (\<lambda>v. (UNPACK_CHAR v, UNPACK_EOW v, UNPACK_EON v, UNPACK_NEXT v)) img =
        [(1, 0, 1, 1), (2, 1, 0, 0), (3, 1, 1, 0)]) \<and>
   Option.bind (build_dawg [''ab'', ''ac'']) (\<lambda>(root, h, m). dawg_nodes root h) = Some (2 + 1)"
proof -
  have "map (\<lambda>v. (UNPACK_CHAR v, UNPACK_EOW v, UNPACK_EON v, UNPACK_NEXT v))
          [193, 34, 99 :: uint32] = [(1, 0, 1, 1), (2, 1, 0, 0), (3, 1, 1, 0)]"
    by (simp add: unpack_defs)
  then show ?thesis
    using binary_ab_ac nodes_ab_ac by simp
qed

text \<open>
  C5.  For the empty word list the build succeeds and the binary has no entries, hence
  zero bytes.  Walking that image, however, does not yield zero words:
  \<^verbatim>\<open>packed_dawg_verify\<close> calls the walker at index 0 and depth 0, the guard
  \<^verbatim>\<open>index == 0 && depth > 0\<close> does not apply, and the walker reads \<^verbatim>\<open>data[0]\<close> of an
  image that has no entry.
\<close>

theorem C5_empty_image_walk_reads_out_of_bounds:
  "build_binary [] = Some [] \<and> file_size [] = 0 \<and>
   packed_dawg_verify [] print_words buf = Some (Inl DataOutOfBounds)"
  using binary_empty
  by (simp add: file_size_def packed_dawg_verify_def packed_dawg_walk_def
      packed_dawg_walk_run.simps)

text \<open>
  C6, as stated, fails.  Read with the right language of a trie node in the usual sense
  (the empty suffix included when the node ends a word), the words \<open>a\<close>, \<open>ab\<close>, \<open>cb\<close>
  give a trie whose four nodes below the root have three different right languages, while
  the compressed graph has only two nodes besides the root: the nodes below \<open>a\<close> and
  below \<open>c\<close> are merged, since the signature compares children and edge flags and never
  the node's own flag.  The program's node statistic is 3, the root included.
\<close>

theorem C6_counterexample:
  "dawg_node_count [''a'', ''ab'', ''cb''] = Some 2 \<and>
   trie_class_count [''a'', ''ab'', ''cb''] = Some 3 \<and>
   dawg_node_count [''a'', ''ab'', ''cb''] \<noteq> trie_class_count [''a'', ''ab'', ''cb''] \<and>
   Option.bind (build_dawg [''a'', ''ab'', ''cb'']) (\<lambda>(root, h, m). dawg_nodes root h) = Some 3"
  using counts_a_ab_cb nodes_a_ab_cb by simp

text \<open>
  C6, amended.  After compression the nodes reachable from the root, the root excluded,
  are as many as the distinct sets of non-empty suffixes accepted below the trie's
  non-root nodes, with the terminal flags on the edges (the right language without the
  empty suffix).  The nodes of the compressed graph realise exactly these sets, two
  different nodes never accept the same set, and in particular there is at most one node
  without children.
\<close>

theorem C6_nodes_are_edge_language_classes:
  assumes "list_all lowercase ws"
  shows "\<exists>root h0 h1 h m.
           trie_build ws = Some (root, h0) \<and> trie_move_eow_to_edges root h0 = Some h1 \<and>
           dawg_compress root h1 hashmap_create = Some (h, m) \<and>
           card (reach h root - {root}) = card (rlang h1 ` (reach h1 root - {root})) \<and>
           rlang h ` (reach h root - {root}) = rlang h1 ` (reach h1 root - {root}) \<and>
           inj_on (rlang h) (reach h root - {root}) \<and>
           (\<forall>a\<in>reach h root - {root}. \<forall>b\<in>reach h root - {root}.
              (\<forall>j<ALPHABET_SIZE. child h a j = 0) \<and> (\<forall>j<ALPHABET_SIZE. child h b j = 0)
              \<longrightarrow> a = b)"
proof -
  obtain h0 h1 h m K where b: "trie_build ws = Some (1, h0)"
    "trie_move_eow_to_edges 1 h0 = Some h1"
    "dawg_compress 1 h1 hashmap_create = Some (h, m)" "dawg_inv (set ws) 1 h1 h m K"
    using build_dawg_correct[OF assms] by blast
  note c = dawg_classes[OF b(4)]
  have card: "card (reach h 1 - {1}) = card (rlang h1 ` (reach h1 1 - {1}))"
    using card_image[OF c(2)] c(1) by simp
  have sink: "\<forall>a\<in>reach h 1 - {1}. \<forall>b\<in>reach h 1 - {1}.
              (\<forall>j<ALPHABET_SIZE. child h a j = 0) \<and> (\<forall>j<ALPHABET_SIZE. child h b j = 0)
              \<longrightarrow> a = b"
  proof (intro ballI impI)
    fix a b
    assume ab: "a \<in> reach h 1 - {1}" "b \<in> reach h 1 - {1}"
      and z: "(\<forall>j<ALPHABET_SIZE. child h a j = 0) \<and> (\<forall>j<ALPHABET_SIZE. child h b j = 0)"
    have "rlang h a = rlang h b" using rlang_childless z by simp
    then show "a = b" using inj_onD[OF c(2) _ ab] by simp
  qed
  show ?thesis
    apply (intro exI conjI)
          apply (rule b(1))
         apply (rule b(2))
        apply (rule b(3))
       apply (rule card)
      apply (rule c(1))
     apply (rule c(2))
    apply (rule sink)
    done
qed

theorem C6_witness:
  "list_all lowercase [''ab'', ''ac''] \<and>
   (\<exists>root h0 h1 h m.
      trie_build [''ab'', ''ac''] = Some (root, h0) \<and>
      trie_move_eow_to_edges root h0 = Some h1 \<and>
      dawg_compress root h1 hashmap_create = Some (h, m) \<and>
      card (reach h root - {root}) = card (rlang h1 ` (reach h1 root - {root})) \<and>
      rlang h ` (reach h root - {root}) = rlang h1 ` (reach h1 root - {root}) \<and>
      inj_on (rlang h) (reach h root - {root}) \<and>
      (\<forall>a\<in>reach h root - {root}. \<forall>b\<in>reach h root - {root}.
         (\<forall>j<ALPHABET_SIZE. child h a j = 0) \<and> (\<forall>j<ALPHABET_SIZE. child h b j = 0)
         \<longrightarrow> a = b))"
proof -
  have l: "list_all lowercase [''ab'', ''ac'']"
    by (simp add: lowercase_def letter_index_def)
  show ?thesis
    using l C6_nodes_are_edge_language_classes[OF l] by (rule conjI)
qed

text \<open>
  C3.  The binary is a function of the set of words: two word lists with the same words,
  in any order, give the same image, entry by entry and hence byte by byte.
\<close>

theorem C3_binary_is_function_of_word_set:
  assumes "list_all lowercase ws" and "set ws' = set ws"
  shows "\<exists>img. build_binary ws = Some img \<and> build_binary ws' = Some img"
  using build_binary_same[OF assms(1), of ws'] assms(2) by simp

theorem C3_witness:
  "list_all lowercase [''ab'', ''ac''] \<and> set [''ac'', ''ab''] = set [''ab'', ''ac''] \<and>
   (\<exists>img. build_binary [''ab'', ''ac''] = Some img \<and> build_binary [''ac'', ''ab''] = Some img)"
proof -
  have l: "list_all lowercase [''ab'', ''ac'']"
    by (simp add: lowercase_def letter_index_def)
  have s: "set [''ac'', ''ab''] = set [''ab'', ''ac'']" by auto
  show ?thesis
    using l s C3_binary_is_function_of_word_set[OF l s] by simp
qed

text \<open>
  C8.  A word list with repeated words gives the same binary as the list without the
  repetitions, and the same as the list followed by itself.  Inserting a word that the trie
  already holds returns the trie unchanged.
\<close>

theorem C8_repeated_words_change_nothing:
  assumes "list_all lowercase ws"
  shows "(\<exists>img. build_binary (remdups ws) = Some img \<and> build_binary ws = Some img \<and>
            build_binary (ws @ ws) = Some img) \<and>
         (\<exists>root h. trie_build ws = Some (root, h) \<and>
            (\<forall>w\<in>set ws. trie_insert root w h = Some h))"
proof -
  obtain img where i: "build_binary ws = Some img" "build_binary (remdups ws) = Some img"
    using build_binary_same[OF assms, of "remdups ws"] by auto
  have "build_binary (ws @ ws) = Some img"
    using build_binary_same[OF assms, of "ws @ ws"] i(1) by auto
  then show ?thesis using i trie_build_present[OF assms] by simp
qed

theorem C8_witness:
  "list_all lowercase [''ab'', ''ac'', ''ab''] \<and>
   (\<exists>img. build_binary (remdups [''ab'', ''ac'', ''ab'']) = Some img \<and>
      build_binary [''ab'', ''ac'', ''ab''] = Some img \<and>
      build_binary ([''ab'', ''ac'', ''ab''] @ [''ab'', ''ac'', ''ab'']) = Some img) \<and>
   (\<exists>root h. trie_build [''ab'', ''ac'', ''ab''] = Some (root, h) \<and>
      (\<forall>w\<in>set [''ab'', ''ac'', ''ab'']. trie_insert root w h = Some h))"
proof -
  have l: "list_all lowercase [''ab'', ''ac'', ''ab'']"
    by (simp add: lowercase_def letter_index_def)
  show ?thesis
    using l C8_repeated_words_change_nothing[OF l] by (rule conjI)
qed

text \<open>
  C10.  Inserting the empty string sets the root's own terminal flag and nothing else.  A
  word list with the empty string among its words gives the same binary as the list
  without it.
\<close>

theorem C10_empty_string_changes_nothing:
  assumes "list_all lowercase ws" and "set ws' = insert [] (set ws)"
  shows "(\<exists>img. build_binary ws = Some img \<and> build_binary ws' = Some img) \<and>
         (\<exists>h'. trie_insert root [] h = Some h' \<and> brk h' = brk h \<and>
            (\<forall>a. a \<noteq> root \<longrightarrow> cells h' a = cells h a) \<and>
            cells h' root = (cells h root)\<lparr>is_end_of_word := True\<rparr>)"
proof -
  have "set ws' - {[]} = set ws - {[]}" using assms(2) by auto
  then show ?thesis using build_binary_same[OF assms(1)] by (simp add: upd_node_def)
qed

theorem C10_witness:
  "list_all lowercase [''ab'', ''ac''] \<and>
   set [''ab'', [], ''ac''] = insert [] (set [''ab'', ''ac'']) \<and>
   (\<exists>img. build_binary [''ab'', ''ac''] = Some img \<and>
      build_binary [''ab'', [], ''ac''] = Some img) \<and>
   (\<exists>h'. trie_insert 1 [] empty_heap = Some h' \<and> brk h' = brk empty_heap \<and>
      (\<forall>a. a \<noteq> 1 \<longrightarrow> cells h' a = cells empty_heap a) \<and>
      cells h' 1 = (cells empty_heap 1)\<lparr>is_end_of_word := True\<rparr>)"
proof -
  have l: "list_all lowercase [''ab'', ''ac'']"
    by (simp add: lowercase_def letter_index_def)
  have s: "set [''ab'', [], ''ac''] = insert [] (set [''ab'', ''ac''])" by auto
  show ?thesis
    by (rule conjI[OF l conjI[OF s C10_empty_string_changes_nothing[OF l s, of 1 empty_heap]]])
qed

text \<open>
  C7.  Compression leaves the root where it is: the root's own fields other than the child
  pointers are those of the trie's root, a child pointer of the root is null after
  compression iff it was null before, the table has no entry for the root, and no edge of
  the compressed graph leads to the root.  Flattening then gives the root the offset 0, so
  that the root's child block starts at index 0 of the image.
\<close>

theorem C7_root_is_kept_and_starts_the_image:
  assumes "list_all lowercase ws"
  shows "\<exists>root h0 h1 h m queue om pd.
           trie_build ws = Some (root, h0) \<and> trie_move_eow_to_edges root h0 = Some h1 \<and>
           dawg_compress root h1 hashmap_create = Some (h, m) \<and>
           same_fields (cells h root) (cells h1 root) \<and>
           (\<forall>j<ALPHABET_SIZE. child h root j = 0 \<longleftrightarrow> child h1 root j = 0) \<and>
           (\<forall>b. \<forall>e\<in>set (m b). canonical e \<noteq> root) \<and>
           (\<forall>n\<in>reach h root. \<forall>j<ALPHABET_SIZE. child h n j \<noteq> root) \<and>
           flatten_offsets root h = Some (queue, om, size pd) \<and>
           dawg_flatten root h = Some pd \<and>
           offset_map_get om root = 0 \<and>
           (\<forall>j<ALPHABET_SIZE. child h root j \<noteq> 0 \<longrightarrow>
              data pd (slot_of h root j) = entry_of h om root j)"
proof -
  obtain h0 h1 h m K where b: "trie_build ws = Some (1, h0)"
    "trie_move_eow_to_edges 1 h0 = Some h1"
    "dawg_compress 1 h1 hashmap_create = Some (h, m)" "dawg_inv (set ws) 1 h1 h m K"
    using build_dawg_correct[OF assms] by blast
  have sf: "same_fields (cells h 1) (cells h1 1)"
    and rr: "\<forall>j<ALPHABET_SIZE. rewired h1 K (set ws) h (canon_set m) 1 j"
    using b(4) unfolding dawg_inv_def by simp_all
  have z: "\<forall>j<ALPHABET_SIZE. child h 1 j = 0 \<longleftrightarrow> child h1 1 j = 0"
    using rr by (simp add: rewired_def)
  have "1 \<notin> canon_set m" using dawg_inv_graph(3)[OF b(4)] .
  then have t: "\<forall>b. \<forall>e\<in>set (m b). canonical e \<noteq> 1" unfolding canon_set_def by blast
  have d: "dawg h 1 (insert 1 (canon_set m)) (rl K (set ws))"
    using dawg_inv_dawg[OF b(4)] by simp
  have nr: "\<forall>n\<in>reach h 1. \<forall>j<ALPHABET_SIZE. child h n j \<noteq> 1"
    using dawgD(6)[OF d] reach_dawg_closed[OF d] by blast
  obtain queue om pd where f: "dawg_flatten 1 h = Some pd"
    "flat_ok h 1 (insert 1 (canon_set m)) queue om pd"
    using dawg_flatten_correct[OF d] by blast
  have fo: "flatten_offsets 1 h = Some (queue, om, size pd)"
    using f(2) by (simp add: flat_ok_def)
  note rb = flatten_root_block[OF d f(2)]
  show ?thesis
    apply (intro exI conjI)
              apply (rule b(1))
             apply (rule b(2))
            apply (rule b(3))
           apply (rule sf)
          apply (rule z)
         apply (rule t)
        apply (rule nr)
       apply (rule fo)
      apply (rule f(1))
     apply (rule rb(1))
    apply (rule rb(2))
    done
qed

theorem C7_witness:
  "list_all lowercase [''ab'', ''ac''] \<and>
   (\<exists>root h0 h1 h m queue om pd.
      trie_build [''ab'', ''ac''] = Some (root, h0) \<and>
      trie_move_eow_to_edges root h0 = Some h1 \<and>
      dawg_compress root h1 hashmap_create = Some (h, m) \<and>
      same_fields (cells h root) (cells h1 root) \<and>
      (\<forall>j<ALPHABET_SIZE. child h root j = 0 \<longleftrightarrow> child h1 root j = 0) \<and>
      (\<forall>b. \<forall>e\<in>set (m b). canonical e \<noteq> root) \<and>
      (\<forall>n\<in>reach h root. \<forall>j<ALPHABET_SIZE. child h n j \<noteq> root) \<and>
      flatten_offsets root h = Some (queue, om, size pd) \<and>
      dawg_flatten root h = Some pd \<and>
      offset_map_get om root = 0 \<and>
      (\<forall>j<ALPHABET_SIZE. child h root j \<noteq> 0 \<longrightarrow>
         data pd (slot_of h root j) = entry_of h om root j))"
proof -
  have l: "list_all lowercase [''ab'', ''ac'']"
    by (simp add: lowercase_def letter_index_def)
  show ?thesis
    using l C7_root_is_kept_and_starts_the_image[OF l] by (rule conjI)
qed



text \<open>
  C4.  The build has no capacity check.  For every list of lowercase words, however large
  the image, \<^verbatim>\<open>dawg_flatten\<close> returns and the binary is written; the next field of the entry
  of an edge holds the offset of the edge's target modulo \<open>2^25\<close>, so an offset of \<open>2^25\<close> or
  more is stored truncated and without a diagnostic.
\<close>

theorem C4_no_capacity_check_offsets_truncated:
  assumes "list_all lowercase ws"
  shows "\<exists>root h m queue om pd.
     build_dawg ws = Some (root, h, m) \<and>
     flatten_offsets root h = Some (queue, om, size pd) \<and> dawg_flatten root h = Some pd \<and>
     build_binary ws = Some (packed_file pd) \<and>
     (\<forall>n\<in>set queue. \<forall>j<ALPHABET_SIZE. child h n j \<noteq> 0 \<longrightarrow>
        data pd (offset_map_get om n + slot_of h n j) =
          pack_entry j (child_is_terminal (cells h n) ! j) (slot_of h n j = cc h n - 1)
            (offset_map_get om (child h n j)) \<and>
        UNPACK_NEXT (data pd (offset_map_get om n + slot_of h n j)) =
          word_of_int (offset_map_get om (child h n j) mod 2 ^ 25)) \<and>
     (\<forall>j e l. UNPACK_NEXT (pack_entry j e l (2 ^ 25)) = 0)"
proof -
  obtain h1 h m K queue om pd where b: "build_dawg ws = Some (1, h, m)"
    "dawg h 1 (insert 1 (canon_set m)) (rl K (set ws))"
    "dawg_flatten 1 h = Some pd" "flat_ok h 1 (insert 1 (canon_set m)) queue om pd"
    "build_binary ws = Some (packed_file pd)"
    using build_flat[OF assms] by blast
  note d = b(2) and f = b(4)
  have e: "\<forall>n\<in>set queue. \<forall>j<ALPHABET_SIZE. child h n j \<noteq> 0 \<longrightarrow>
        data pd (offset_map_get om n + slot_of h n j) =
          pack_entry j (child_is_terminal (cells h n) ! j) (slot_of h n j = cc h n - 1)
            (offset_map_get om (child h n j)) \<and>
        UNPACK_NEXT (data pd (offset_map_get om n + slot_of h n j)) =
          word_of_int (offset_map_get om (child h n j) mod 2 ^ 25)"
  proof (intro ballI allI impI conjI)
    fix n j assume n: "n \<in> set queue" and j: "j < ALPHABET_SIZE" and c: "child h n j \<noteq> 0"
    show "data pd (offset_map_get om n + slot_of h n j) =
          pack_entry j (child_is_terminal (cells h n) ! j) (slot_of h n j = cc h n - 1)
            (offset_map_get om (child h n j))"
      using flat_okD(3)[OF f n] j c by (simp add: block_written_def entry_of_def)
    show "UNPACK_NEXT (data pd (offset_map_get om n + slot_of h n j)) =
          word_of_int (offset_map_get om (child h n j) mod 2 ^ 25)"
      using block_next(1)[OF d f n j c] .
  qed
  have t: "\<forall>j e l. UNPACK_NEXT (pack_entry j e l (2 ^ 25)) = 0"
    by (simp add: UNPACK_NEXT_pack_mod)
  show ?thesis
    apply (intro exI conjI)
        apply (rule b(1))
       apply (rule flat_okD(1)[OF f])
      apply (rule b(3))
     apply (rule b(5))
     apply (rule e)
    apply (rule t)
    done
qed

theorem C4_witness:
  "list_all lowercase [''ab'', ''ac''] \<and>
   (\<exists>root h m queue om pd.
     build_dawg [''ab'', ''ac''] = Some (root, h, m) \<and>
     flatten_offsets root h = Some (queue, om, size pd) \<and> dawg_flatten root h = Some pd \<and>
     build_binary [''ab'', ''ac''] = Some (packed_file pd) \<and>
     (\<forall>n\<in>set queue. \<forall>j<ALPHABET_SIZE. child h n j \<noteq> 0 \<longrightarrow>
        data pd (offset_map_get om n + slot_of h n j) =
          pack_entry j (child_is_terminal (cells h n) ! j) (slot_of h n j = cc h n - 1)
            (offset_map_get om (child h n j)) \<and>
        UNPACK_NEXT (data pd (offset_map_get om n + slot_of h n j)) =
          word_of_int (offset_map_get om (child h n j) mod 2 ^ 25)) \<and>
     (\<forall>j e l. UNPACK_NEXT (pack_entry j e l (2 ^ 25)) = 0))"
proof -
  have l: "list_all lowercase [''ab'', ''ac'']"
    by (simp add: lowercase_def letter_index_def)
  show ?thesis
    using l C4_no_capacity_check_offsets_truncated[OF l] by (rule conjI)
qed

text \<open>
  C1.  For a list of non-empty lowercase words of at most 255 letters whose image has at
  most \<open>2^25\<close> entries, walked with a buffer of 256 characters: if the list is not empty,
  the walk of the image returns without leaving the image or the buffer, the words it
  prints are exactly the words of the list, each once, and the counter ends at the number
  of different words, with printing switched on or off.  If the list is empty, the image
  has no entry and the walk does not return with zero words: it reads \<^verbatim>\<open>data[0]\<close>
  outside the image.
\<close>

theorem C1_walk_enumerates_the_words_unless_there_are_none:
  assumes "list_all lowercase ws"
    and "\<forall>w\<in>set ws. w \<noteq> [] \<and> length w \<le> 255"
    and "length buf = 256"
    and "build_binary ws = Some img" and "length img \<le> 2 ^ 25"
  shows "(ws \<noteq> [] \<longrightarrow>
            (\<exists>s. packed_dawg_verify img True buf = Some (Inr s) \<and>
               set (printed s) = set ws \<and> distinct (printed s) \<and>
               word_count s = int (card (set ws))) \<and>
            (\<exists>s. packed_dawg_verify img False buf = Some (Inr s) \<and>
               word_count s = int (card (set ws)))) \<and>
         (ws = [] \<longrightarrow>
            img = [] \<and> packed_dawg_verify img print_words buf = Some (Inl DataOutOfBounds))"
proof (intro conjI impI)
  assume n: "ws \<noteq> []"
  have ne: "\<exists>w\<in>set ws. w \<noteq> []" using n assms(2) by (cases ws) auto
  have w: "\<forall>w\<in>set ws. length w \<le> 255" using assms(2) by simp
  have e: "set ws - {[]} = set ws" using assms(2) by auto
  obtain s out where t: "packed_dawg_verify img True buf = Some (Inr s)"
    "set out = set ws" "distinct out" "printed s = out" "word_count s = int (length out)"
    using verify_correct[OF assms(1) ne w assms(3,4,5), of True] unfolding e by auto
  obtain s' out' where t': "packed_dawg_verify img False buf = Some (Inr s')"
    "set out' = set ws" "distinct out'" "word_count s' = int (length out')"
    using verify_correct[OF assms(1) ne w assms(3,4,5), of False] unfolding e by auto
  have "length out = card (set ws)" using distinct_card[OF t(3)] t(2) by simp
  then show "\<exists>s. packed_dawg_verify img True buf = Some (Inr s) \<and>
      set (printed s) = set ws \<and> distinct (printed s) \<and>
      word_count s = int (card (set ws))"
    using t by auto
  have "length out' = card (set ws)" using distinct_card[OF t'(3)] t'(2) by simp
  then show "\<exists>s. packed_dawg_verify img False buf = Some (Inr s) \<and>
      word_count s = int (card (set ws))"
    using t' by auto
next
  assume "ws = []"
  then show i: "img = []" using assms(4) binary_empty by simp
  show "packed_dawg_verify img print_words buf = Some (Inl DataOutOfBounds)"
    unfolding i
    by (simp add: packed_dawg_verify_def packed_dawg_walk_def packed_dawg_walk_run.simps)
qed

theorem C1_witness:
  "list_all lowercase [''ab'', ''ac''] \<and>
   list_all (\<lambda>w. w \<noteq> [] \<and> length w \<le> 255) [''ab'', ''ac''] \<and>
   length (replicate 256 CHR ''x'') = 256 \<and>
   build_binary [''ab'', ''ac''] = Some [193, 34, 99] \<and>
   length [193, 34, 99 :: uint32] \<le> 2 ^ 25 \<and> [''ab'', ''ac''] \<noteq> [] \<and>
   (\<exists>s. packed_dawg_verify [193, 34, 99] True (replicate 256 CHR ''x'') = Some (Inr s) \<and>
      set (printed s) = set [''ab'', ''ac''] \<and> distinct (printed s) \<and>
      word_count s = int (card (set [''ab'', ''ac'']))) \<and>
   (\<exists>s. packed_dawg_verify [193, 34, 99] False (replicate 256 CHR ''x'') = Some (Inr s) \<and>
      word_count s = int (card (set [''ab'', ''ac''])))"
proof -
  have l: "list_all lowercase [''ab'', ''ac'']"
    by (simp add: lowercase_def letter_index_def)
  have n: "[''ab'', ''ac''] \<noteq> []" by simp
  have w: "\<forall>w\<in>set [''ab'', ''ac'']. w \<noteq> [] \<and> length w \<le> 255" by simp
  have w': "list_all (\<lambda>w. w \<noteq> [] \<and> length w \<le> 255) [''ab'', ''ac'']" by simp
  have b: "length (replicate 256 CHR ''x'') = 256" by simp
  have s: "length [193, 34, 99 :: uint32] \<le> 2 ^ 25" by simp
  note t = C1_walk_enumerates_the_words_unless_there_are_none[OF l w b binary_ab_ac s,
      THEN conjunct1, rule_format, OF n]
  show ?thesis
    by (rule conjI[OF l conjI[OF w' conjI[OF b conjI[OF binary_ab_ac conjI[OF s conjI[OF n t]]]]]])
qed

end
